theory Spec2Isabelle
  imports Complex_Main
begin

section \<open>Data model (types.go, config.go, main.go)\<close>

text \<open>
  Go strings are byte sequences; they are modelled as \<open>string\<close> (a list of 8-bit
  characters). Go's \<open>int\<close> is modelled as \<open>int\<close> (no claim depends on 64-bit
  overflow), \<open>float32\<close> as \<open>real\<close>. A nil slice is the empty list.
\<close>

record Frame =
  Frame_Text :: string
  Frame_StartTime :: string
  Frame_EndTime :: string

record Sentence =
  Sentence_Text :: string
  Sentence_StartTime :: string
  Sentence_Embedding :: "real list"
  Sentence_TokenCount :: int

record Chunk =
  Chunk_Text :: string
  Chunk_StartTime :: string
  Chunk_Embedding :: "real list"
  Chunk_NumSentences :: int
  Chunk_TokenCount :: int
  Chunk_ChunkIndex :: int
  Chunk_SentenceEmbeddings :: "real list list"

record ChunkingConfig =
  OptimalSize :: int
  MaxSize :: int
  LambdaSize :: real
  ChunkPenalty :: real

text \<open>config.go: \<open>DefaultChunkingConfig\<close>.\<close>

definition DefaultChunkingConfig :: ChunkingConfig where
  "DefaultChunkingConfig =
     \<lparr>OptimalSize = 470, MaxSize = 512, LambdaSize = 2.0, ChunkPenalty = 1.0\<rparr>"

section \<open>The string functions of Go's \<open>strings\<close> package that the segmenter uses\<close>

text \<open>
  White space is the ASCII set of \<open>strings.Fields\<close> and \<open>strings.TrimSpace\<close>:
  tab, line feed, vertical tab, form feed, carriage return and space. The multi-byte
  Unicode spaces (U+0085, U+00A0, ...) are not modelled: a byte above 0x7F is never
  white space here.
\<close>

definition isSpace :: "char \<Rightarrow> bool" where
  "isSpace c \<longleftrightarrow> c = CHR '' '' \<or> c = CHR 0x09 \<or> c = CHR 0x0A \<or> c = CHR 0x0B
                \<or> c = CHR 0x0C \<or> c = CHR 0x0D"

definition TrimSpace :: "string \<Rightarrow> string" where
  "TrimSpace s = rev (dropWhile isSpace (rev (dropWhile isSpace s)))"

definition HasSuffix :: "string \<Rightarrow> string \<Rightarrow> bool" where
  "HasSuffix s suffix \<longleftrightarrow>
     length suffix \<le> length s \<and> drop (length s - length suffix) s = suffix"

text \<open>
  \<open>strings.Fields\<close>: the maximal runs of non-space characters, in order. The first
  argument of the auxiliary function is the field being read.
\<close>

fun Fields_from :: "string \<Rightarrow> string \<Rightarrow> string list" where
  "Fields_from cur [] = (if cur = [] then [] else [cur])"
| "Fields_from cur (c # cs) =
     (if isSpace c then (if cur = [] then Fields_from [] cs else cur # Fields_from [] cs)
      else Fields_from (cur @ [c]) cs)"

definition Fields :: "string \<Rightarrow> string list" where
  "Fields s = Fields_from [] s"

section \<open>The tokenizer capability and \<open>CountTokens\<close> (sentence_parser.go)\<close>

text \<open>
  \<open>tok.EncodeSingle(text)\<close> returns an encoding or an error. The tokenizer is a
  parameter: a function from the text to either an error message (\<open>Inl\<close>) or the list
  of token ids of the encoding (\<open>Inr\<close>).
\<close>

type_synonym Tokenizer = "string \<Rightarrow> string + nat list"

definition CountTokens :: "Tokenizer \<Rightarrow> string \<Rightarrow> int" where
  "CountTokens tok text =
     (case tok text of
        Inl err \<Rightarrow> 0
      | Inr ids \<Rightarrow> int (length ids))"

section \<open>The sentence segmenter (sentence_parser.go)\<close>

subsection \<open>The frame loop: provisional sentences\<close>

text \<open>The local variables of \<open>ExtractSentencesFromFrames\<close> that the frame loop updates.\<close>

record seg_state =
  sentences :: "Sentence list"
  currentSentenceText :: string
  currentStartTime :: string
  isFirstFrame :: bool

definition seg_init :: seg_state where
  "seg_init = \<lparr>sentences = [], currentSentenceText = [], currentStartTime = [],
               isFirstFrame = True\<rparr>"

definition endsSentence :: "string \<Rightarrow> bool" where
  "endsSentence text =
     (let trimmed = TrimSpace text
      in HasSuffix trimmed ''.'' \<or> HasSuffix trimmed ''!'' \<or> HasSuffix trimmed ''?'')"

text \<open>One iteration of \<open>for _, frame := range frames\<close>.\<close>

definition frame_step :: "Tokenizer \<Rightarrow> seg_state \<Rightarrow> Frame \<Rightarrow> seg_state" where
  "frame_step tok st frame =
     (let start = (if isFirstFrame st then Frame_StartTime frame else currentStartTime st);
          buf0 = currentSentenceText st;
          buf1 = (if length buf0 > 0 then buf0 @ '' '' else buf0);
          buf = buf1 @ Frame_Text frame
      in if endsSentence (Frame_Text frame)
         then \<lparr>sentences = sentences st @
                  [\<lparr>Sentence_Text = buf, Sentence_StartTime = start,
                    Sentence_Embedding = [], Sentence_TokenCount = CountTokens tok buf\<rparr>],
               currentSentenceText = [], currentStartTime = start, isFirstFrame = True\<rparr>
         else \<lparr>sentences = sentences st, currentSentenceText = buf,
               currentStartTime = start, isFirstFrame = False\<rparr>)"

text \<open>After the loop: "Add any remaining text as a sentence".\<close>

definition flush_remaining :: "Tokenizer \<Rightarrow> seg_state \<Rightarrow> Sentence list" where
  "flush_remaining tok st =
     (if length (currentSentenceText st) > 0
      then sentences st @
             [\<lparr>Sentence_Text = currentSentenceText st,
               Sentence_StartTime = currentStartTime st,
               Sentence_Embedding = [],
               Sentence_TokenCount = CountTokens tok (currentSentenceText st)\<rparr>]
      else sentences st)"

definition provisional_sentences :: "Tokenizer \<Rightarrow> Frame list \<Rightarrow> Sentence list" where
  "provisional_sentences tok frames = flush_remaining tok (foldl (frame_step tok) seg_init frames)"

subsection \<open>The post-processing pass: splitting oversized sentences by words\<close>

text \<open>
  The inner loop \<open>for wordCount < len(words)\<close>: it returns the text of
  \<open>currentChunk\<close> and \<open>wordCount\<close> when it stops.
\<close>

function add_words :: "Tokenizer \<Rightarrow> int \<Rightarrow> string list \<Rightarrow> string \<Rightarrow> nat \<Rightarrow> string \<times> nat" where
  "add_words tok maxTokens words currentChunk wordCount =
     (if wordCount < length words
      then (let testText = currentChunk @ '' '' @ words ! wordCount;
                tokens = CountTokens tok testText
            in if tokens > maxTokens then (currentChunk, wordCount)
               else add_words tok maxTokens words
                      (currentChunk @ '' '' @ words ! wordCount) (wordCount + 1))
      else (currentChunk, wordCount))"
  by pat_completeness auto
termination
  by (relation "measure (\<lambda>(tok, maxTokens, words, currentChunk, wordCount). length words - wordCount)")
     auto

declare add_words.simps [simp del]

text \<open>
  The outer loop \<open>for len(words) > 0\<close>. Nothing in its text bounds the number of
  iterations, so it is a partial function: \<open>None\<close> is a loop that never ends.
  \<open>words[0]\<close> is read only when \<open>len(words) > 0\<close>.
\<close>

partial_function (option) split_words ::
  "Tokenizer \<Rightarrow> int \<Rightarrow> string \<Rightarrow> string list \<Rightarrow> Sentence list \<Rightarrow> Sentence list option" where
  "split_words tok maxTokens startTime words finalSentences =
     (if length words > 0
      then (case add_words tok maxTokens words (hd words) 1 of
              (chunkText, wordCount) \<Rightarrow>
                split_words tok maxTokens startTime (drop wordCount words)
                  (finalSentences @
                     [\<lparr>Sentence_Text = chunkText, Sentence_StartTime = startTime,
                       Sentence_Embedding = [],
                       Sentence_TokenCount = CountTokens tok chunkText\<rparr>]))
      else Some finalSentences)"

text \<open>The loop \<open>for _, sent := range sentences\<close> of the post-processing pass.\<close>

fun split_oversized ::
  "Tokenizer \<Rightarrow> int \<Rightarrow> Sentence list \<Rightarrow> Sentence list \<Rightarrow> Sentence list option" where
  "split_oversized tok maxTokens [] finalSentences = Some finalSentences"
| "split_oversized tok maxTokens (sent # rest) finalSentences =
     (if Sentence_TokenCount sent \<le> maxTokens
      then split_oversized tok maxTokens rest (finalSentences @ [sent])
      else (let words = Fields (Sentence_Text sent)
            in if length words = 0
               then split_oversized tok maxTokens rest (finalSentences @ [sent])
               else (case split_words tok maxTokens (Sentence_StartTime sent) words finalSentences of
                       None \<Rightarrow> None
                     | Some finalSentences' \<Rightarrow> split_oversized tok maxTokens rest finalSentences')))"

subsection \<open>\<open>ExtractSentencesFromFrames\<close>: the limit is the constant 512\<close>

definition ExtractSentencesFromFrames :: "Tokenizer \<Rightarrow> Frame list \<Rightarrow> Sentence list option" where
  "ExtractSentencesFromFrames tok frames =
     (if length frames = 0 then Some []
      else split_oversized tok 512 (provisional_sentences tok frames) [])"

subsection \<open>\<open>ExtractSentencesFromText\<close>: words instead of frames, the limit is a parameter\<close>

text \<open>The local variables of the word loop: \<open>sentences\<close> and \<open>currentSentence\<close>.\<close>

definition word_step :: "Tokenizer \<Rightarrow> Sentence list \<times> string \<Rightarrow> string \<Rightarrow> Sentence list \<times> string" where
  "word_step tok st word =
     (let buf0 = snd st;
          buf1 = (if length buf0 > 0 then buf0 @ '' '' else buf0);
          buf = buf1 @ word
      in if endsSentence word
         then (fst st @ [\<lparr>Sentence_Text = buf, Sentence_StartTime = [],
                          Sentence_Embedding = [], Sentence_TokenCount = CountTokens tok buf\<rparr>],
               [])
         else (fst st, buf))"

definition text_sentences :: "Tokenizer \<Rightarrow> string \<Rightarrow> Sentence list" where
  "text_sentences tok text =
     (case foldl (word_step tok) ([], []) (Fields text) of
        (sents, currentSentence) \<Rightarrow>
          if length currentSentence > 0
          then sents @ [\<lparr>Sentence_Text = currentSentence, Sentence_StartTime = [],
                         Sentence_Embedding = [],
                         Sentence_TokenCount = CountTokens tok currentSentence\<rparr>]
          else sents)"

definition ExtractSentencesFromText :: "Tokenizer \<Rightarrow> string \<Rightarrow> int \<Rightarrow> Sentence list option" where
  "ExtractSentencesFromText tok text maxSize =
     (if text = [] then Some []
      else split_oversized tok maxSize (text_sentences tok text) [])"

section \<open>The DP chunker\<close>

text \<open>
  Modelled from the spec: the method \<open>ExtractChunksFromSentences\<close> of
  \<open>ChunkingConfig\<close>, which \<open>processText\<close> calls, is not among the source files. The
  definitions of this section follow sections 4.3.1 to 4.3.5 of the specification.
  Where the specification leaves "no legal predecessor" to a defensive implementation,
  the model returns an error, as the method's Go signature \<open>([]*Chunk, error)\<close> allows.
\<close>

subsection \<open>Similarity precomputation (4.3.1)\<close>

definition dot :: "real list \<Rightarrow> real list \<Rightarrow> real" where
  "dot a b = sum_list (map2 (*) a b)"

definition cosine :: "real list \<Rightarrow> real list \<Rightarrow> real" where
  "cosine a b = dot a b / (sqrt (dot a a) * sqrt (dot b b))"

definition raw_sim :: "Sentence list \<Rightarrow> real list" where
  "raw_sim ss =
     map (\<lambda>i. cosine (Sentence_Embedding (ss ! i)) (Sentence_Embedding (ss ! (i + 1))))
       [0..<length ss - 1]"

definition normalize_sim :: "real list \<Rightarrow> real list" where
  "normalize_sim raw =
     (case raw of
        [] \<Rightarrow> []
      | x # xs \<Rightarrow>
          (let lo = foldl min x xs; hi = foldl max x xs
           in if hi > lo then map (\<lambda>r. (r - lo) / (hi - lo)) raw
              else map (\<lambda>r. 0) raw))"

subsection \<open>Prefix arrays (4.3.2)\<close>

text \<open>\<open>prefix_from 0 xs\<close> is the array \<open>p\<close> with \<open>p[0] = 0\<close> and \<open>p[k] = p[k-1] + xs[k-1]\<close>.\<close>

fun prefix_from :: "'a::monoid_add \<Rightarrow> 'a list \<Rightarrow> 'a list" where
  "prefix_from acc [] = [acc]"
| "prefix_from acc (x # xs) = acc # prefix_from (acc + x) xs"

definition segment_tokens :: "int list \<Rightarrow> nat \<Rightarrow> nat \<Rightarrow> int" where
  "segment_tokens prefix_tok i j = prefix_tok ! j - prefix_tok ! i"

definition segment_reward :: "real list \<Rightarrow> nat \<Rightarrow> nat \<Rightarrow> real" where
  "segment_reward prefix_sim i j = prefix_sim ! (j - 1) - prefix_sim ! i"

subsection \<open>Size penalty (4.3.3)\<close>

text \<open>\<open>None\<close>: the segment is illegal.\<close>

definition size_penalty :: "ChunkingConfig \<Rightarrow> int \<Rightarrow> real option" where
  "size_penalty cfg t =
     (if t > MaxSize cfg then None
      else if t \<le> OptimalSize cfg then Some 0
      else Some (LambdaSize cfg * real_of_int (t - OptimalSize cfg)
                   / real_of_int (MaxSize cfg - OptimalSize cfg)))"

subsection \<open>Dynamic program (4.3.4)\<close>

definition candidate ::
  "ChunkingConfig \<Rightarrow> real list \<Rightarrow> int list \<Rightarrow> real list \<Rightarrow> nat \<Rightarrow> nat \<Rightarrow> real option" where
  "candidate cfg prefix_sim prefix_tok dp i j =
     (case size_penalty cfg (segment_tokens prefix_tok i j) of
        None \<Rightarrow> None
      | Some pen \<Rightarrow> Some (dp ! i + segment_reward prefix_sim i j - pen - ChunkPenalty cfg))"

text \<open>
  The running maximum over \<open>i\<close>, in increasing order; a later \<open>i\<close> replaces the best
  one only with a strictly greater score, so that ties go to the smaller \<open>i\<close>.
\<close>

definition better :: "(nat \<times> real) option \<Rightarrow> nat \<Rightarrow> real option \<Rightarrow> (nat \<times> real) option" where
  "better best i cand =
     (case cand of
        None \<Rightarrow> best
      | Some score \<Rightarrow>
          (case best of
             None \<Rightarrow> Some (i, score)
           | Some (bi, bscore) \<Rightarrow> if score > bscore then Some (i, score) else best))"

definition best_start ::
  "ChunkingConfig \<Rightarrow> real list \<Rightarrow> int list \<Rightarrow> real list \<Rightarrow> nat \<Rightarrow> (nat \<times> real) option" where
  "best_start cfg prefix_sim prefix_tok dp j =
     foldl (\<lambda>best i. better best i (candidate cfg prefix_sim prefix_tok dp i j)) None [0..<j]"

text \<open>
  The tables \<open>dp[0..j]\<close> and \<open>start[0..j]\<close>; \<open>start[0]\<close> is never read and is set
  to 0.
\<close>

definition dp_step ::
  "ChunkingConfig \<Rightarrow> real list \<Rightarrow> int list \<Rightarrow> string + real list \<times> nat list \<Rightarrow> nat
     \<Rightarrow> string + real list \<times> nat list" where
  "dp_step cfg prefix_sim prefix_tok st j =
     (case st of
        Inl err \<Rightarrow> Inl err
      | Inr (dp, start) \<Rightarrow>
          (case best_start cfg prefix_sim prefix_tok dp j of
             None \<Rightarrow> Inl ''no legal predecessor''
           | Some (i, score) \<Rightarrow> Inr (dp @ [score], start @ [i])))"

definition dp_run ::
  "ChunkingConfig \<Rightarrow> real list \<Rightarrow> int list \<Rightarrow> nat \<Rightarrow> string + real list \<times> nat list" where
  "dp_run cfg prefix_sim prefix_tok n =
     foldl (dp_step cfg prefix_sim prefix_tok) (Inr ([0], [0])) [1..<n + 1]"

subsection \<open>Reconstruction (4.3.5)\<close>

text \<open>
  "Starting from \<open>j = n\<close>, emit segment \<open>[start[j], j)\<close>, set \<open>j = start[j]\<close>, repeat
  until \<open>j = 0\<close>. Reverse the emitted list". The loop is a partial function:
  \<open>None\<close> is a walk that never reaches 0.
\<close>

partial_function (option) reconstruct ::
  "nat list \<Rightarrow> nat \<Rightarrow> (nat \<times> nat) list \<Rightarrow> (nat \<times> nat) list option" where
  "reconstruct start j emitted =
     (if j = 0 then Some (rev emitted)
      else reconstruct start (start ! j) (emitted @ [(start ! j, j)]))"

text \<open>The sentences of the segment \<open>[i, j)\<close>.\<close>

definition segment_sentences :: "Sentence list \<Rightarrow> nat \<times> nat \<Rightarrow> Sentence list" where
  "segment_sentences ss seg = take (snd seg - fst seg) (drop (fst seg) ss)"

fun join_space :: "string list \<Rightarrow> string" where
  "join_space [] = []"
| "join_space [t] = t"
| "join_space (t # ts) = t @ '' '' @ join_space ts"

definition build_chunk :: "Sentence list \<Rightarrow> nat \<Rightarrow> nat \<times> nat \<Rightarrow> Chunk" where
  "build_chunk ss idx seg =
     (let members = segment_sentences ss seg
      in \<lparr>Chunk_Text = join_space (map Sentence_Text members),
          Chunk_StartTime = (case members of [] \<Rightarrow> [] | s # rest \<Rightarrow> Sentence_StartTime s),
          Chunk_Embedding = [],
          Chunk_NumSentences = int (length members),
          Chunk_TokenCount = sum_list (map Sentence_TokenCount members),
          Chunk_ChunkIndex = int idx,
          Chunk_SentenceEmbeddings = map Sentence_Embedding members\<rparr>)"

text \<open>The segmentation that the dynamic program chooses, in input order.\<close>

definition dp_segments ::
  "ChunkingConfig \<Rightarrow> Sentence list \<Rightarrow> (string + (nat \<times> nat) list) option" where
  "dp_segments cfg ss =
     (if ss = [] then Some (Inr [])
      else (let n = length ss;
                prefix_sim = prefix_from 0 (normalize_sim (raw_sim ss));
                prefix_tok = prefix_from 0 (map Sentence_TokenCount ss)
            in case dp_run cfg prefix_sim prefix_tok n of
                 Inl err \<Rightarrow> Some (Inl err)
               | Inr (dp, start) \<Rightarrow>
                   (case reconstruct start n [] of
                      None \<Rightarrow> None
                    | Some segs \<Rightarrow> Some (Inr segs))))"

definition ExtractChunksFromSentences ::
  "ChunkingConfig \<Rightarrow> Sentence list \<Rightarrow> (string + Chunk list) option" where
  "ExtractChunksFromSentences cfg ss =
     (case dp_segments cfg ss of
        None \<Rightarrow> None
      | Some (Inl err) \<Rightarrow> Some (Inl err)
      | Some (Inr segs) \<Rightarrow> Some (Inr (map2 (build_chunk ss) [0..<length segs] segs)))"

section \<open>The request handler (main.go)\<close>

record EmbedRequest =
  EmbedRequest_ID :: string
  EmbedRequest_Text :: string
  EmbedRequest_ChunkingConfig :: "ChunkingConfig option"

record BatchEmbedRequest =
  BatchEmbedRequest_Documents :: "EmbedRequest list"

record ChunkResponse =
  ChunkResponse_Text :: string
  ChunkResponse_StartTime :: string
  ChunkResponse_Embedding :: "real list"
  ChunkResponse_NumSentences :: int
  ChunkResponse_TokenCount :: int
  ChunkResponse_ChunkIndex :: int

record DocumentResponse =
  DocumentResponse_ID :: string
  DocumentResponse_Chunks :: "ChunkResponse list"
  DocumentResponse_Error :: string

record BatchEmbedResponse =
  BatchEmbedResponse_Documents :: "DocumentResponse list"

text \<open>
  The embedding model. Its methods \<open>EmbedSentences\<close> and \<open>EmbedChunks\<close> (which run
  the ONNX model and store the vectors in the items they are given) are not among the
  source files; they are parameters here, returning an error or the items with their
  embeddings.
\<close>

record EmbeddingModel =
  EmbeddingModel_Tokenizer :: Tokenizer
  EmbedSentences :: "Sentence list \<Rightarrow> string + Sentence list"
  EmbedChunks :: "Chunk list \<Rightarrow> string + Chunk list"

text \<open>
  \<open>processText\<close>. The result is \<open>None\<close> when one of the loops it runs does not end,
  \<open>Some (Inl err)\<close> for a returned error and \<open>Some (Inr chunks)\<close> otherwise.
\<close>

definition processText ::
  "EmbeddingModel \<Rightarrow> string \<Rightarrow> ChunkingConfig \<Rightarrow> (string + Chunk list) option" where
  "processText embeddingModel text chunkingConfig =
     (let frames = [\<lparr>Frame_Text = text, Frame_StartTime = [], Frame_EndTime = []\<rparr>]
      in case ExtractSentencesFromFrames (EmbeddingModel_Tokenizer embeddingModel) frames of
           None \<Rightarrow> None
         | Some sents \<Rightarrow>
             if length sents = 0 then Some (Inr [])
             else (case EmbedSentences embeddingModel sents of
                     Inl err \<Rightarrow> Some (Inl (''failed to embed sentences: '' @ err))
                   | Inr embedded \<Rightarrow>
                       (case ExtractChunksFromSentences chunkingConfig embedded of
                          None \<Rightarrow> None
                        | Some (Inl err) \<Rightarrow> Some (Inl (''failed to extract chunks: '' @ err))
                        | Some (Inr chunks) \<Rightarrow>
                            (case EmbedChunks embeddingModel chunks of
                               Inl err \<Rightarrow> Some (Inl (''failed to embed chunks: '' @ err))
                             | Inr chunks' \<Rightarrow> Some (Inr chunks')))))"

definition chunk_response :: "Chunk \<Rightarrow> ChunkResponse" where
  "chunk_response chunk =
     \<lparr>ChunkResponse_Text = Chunk_Text chunk,
      ChunkResponse_StartTime = Chunk_StartTime chunk,
      ChunkResponse_Embedding = Chunk_Embedding chunk,
      ChunkResponse_NumSentences = Chunk_NumSentences chunk,
      ChunkResponse_TokenCount = Chunk_TokenCount chunk,
      ChunkResponse_ChunkIndex = Chunk_ChunkIndex chunk\<rparr>"

definition processDocument :: "EmbeddingModel \<Rightarrow> EmbedRequest \<Rightarrow> DocumentResponse option" where
  "processDocument embeddingModel doc =
     (let resp = \<lparr>DocumentResponse_ID = EmbedRequest_ID doc, DocumentResponse_Chunks = [],
                  DocumentResponse_Error = []\<rparr>
      in if EmbedRequest_Text doc = []
         then Some (resp\<lparr>DocumentResponse_Error := ''Text field is required''\<rparr>)
         else (let chunkingConfig =
                     (case EmbedRequest_ChunkingConfig doc of
                        None \<Rightarrow> DefaultChunkingConfig
                      | Some supplied \<Rightarrow> supplied)
               in case processText embeddingModel (EmbedRequest_Text doc) chunkingConfig of
                    None \<Rightarrow> None
                  | Some (Inl err) \<Rightarrow>
                      Some (resp\<lparr>DocumentResponse_Error := ''Processing failed: '' @ err\<rparr>)
                  | Some (Inr chunks) \<Rightarrow>
                      Some (resp\<lparr>DocumentResponse_Chunks := map chunk_response chunks\<rparr>)))"

text \<open>The loop \<open>for i, doc := range batchReq.Documents\<close> of \<open>handleEmbed\<close>.\<close>

fun process_documents :: "EmbeddingModel \<Rightarrow> EmbedRequest list \<Rightarrow> DocumentResponse list option" where
  "process_documents embeddingModel [] = Some []"
| "process_documents embeddingModel (doc # docs) =
     (case processDocument embeddingModel doc of
        None \<Rightarrow> None
      | Some docResp \<Rightarrow>
          (case process_documents embeddingModel docs of
             None \<Rightarrow> None
           | Some rest \<Rightarrow> Some (docResp # rest)))"

text \<open>
  An HTTP request as \<open>handleEmbed\<close> sees it: the method, and what
  \<open>json.NewDecoder(r.Body).Decode(&batchReq)\<close> makes of the body: an error (\<open>Inl\<close>)
  or the decoded request (\<open>Inr\<close>; a missing or null \<open>documents\<close> member leaves the
  slice nil, the empty list). A response is \<open>http.Error\<close> with a status code and a
  message, or the JSON encoding of a \<open>BatchEmbedResponse\<close> with status 200.
\<close>

record HttpRequest =
  HttpRequest_Method :: string
  HttpRequest_Body :: "string + BatchEmbedRequest"

datatype HttpResponse = HttpError nat string | HttpJSON BatchEmbedResponse

definition handleEmbed :: "EmbeddingModel \<Rightarrow> HttpRequest \<Rightarrow> HttpResponse option" where
  "handleEmbed embeddingModel r =
     (if HttpRequest_Method r \<noteq> ''POST'' then Some (HttpError 405 ''Method not allowed'')
      else (case HttpRequest_Body r of
              Inl err \<Rightarrow> Some (HttpError 400 (''Invalid request: '' @ err))
            | Inr batchReq \<Rightarrow>
                if length (BatchEmbedRequest_Documents batchReq) = 0
                then Some (HttpError 400 ''At least one document is required'')
                else (case process_documents embeddingModel (BatchEmbedRequest_Documents batchReq) of
                        None \<Rightarrow> None
                      | Some docs \<Rightarrow> Some (HttpJSON \<lparr>BatchEmbedResponse_Documents = docs\<rparr>))))"

section \<open>The frame loop, described by the frames of each buffer\<close>

text \<open>
  Two descriptions of the provisional sentences, for comparison with the loop of
  \<open>ExtractSentencesFromFrames\<close>. Both walk the frames and keep the list \<open>run\<close> of
  the frames that went into the current buffer; a frame whose trimmed text ends in
  \<open>.\<close>, \<open>!\<close> or \<open>?\<close> closes the run, and what is left after the last frame is
  emitted when its buffer is not empty.

  The first follows the words of the specification (section 4.1, steps 1 to 3): the
  buffer is the texts of the run "separated by single spaces", and the start time is that
  of the first frame of the run.
\<close>

definition spec_sentence :: "Tokenizer \<Rightarrow> Frame list \<Rightarrow> Sentence" where
  "spec_sentence tok run =
     (let buf = join_space (map Frame_Text run)
      in \<lparr>Sentence_Text = buf,
          Sentence_StartTime = (case run of [] \<Rightarrow> [] | first # rest \<Rightarrow> Frame_StartTime first),
          Sentence_Embedding = [], Sentence_TokenCount = CountTokens tok buf\<rparr>)"

fun spec_provisional :: "Tokenizer \<Rightarrow> Frame list \<Rightarrow> Frame list \<Rightarrow> Sentence list" where
  "spec_provisional tok run [] =
     (if Sentence_Text (spec_sentence tok run) \<noteq> [] then [spec_sentence tok run] else [])"
| "spec_provisional tok run (frame # frames) =
     (if endsSentence (Frame_Text frame)
      then spec_sentence tok (run @ [frame]) # spec_provisional tok [] frames
      else spec_provisional tok (run @ [frame]) frames)"

text \<open>
  The second differs in the buffer only: a space is written before a frame's text when
  the buffer is not empty, so the empty texts at the beginning of a run leave no trace.
\<close>

definition buffer_text :: "Frame list \<Rightarrow> string" where
  "buffer_text run = join_space (dropWhile (\<lambda>t. t = []) (map Frame_Text run))"

definition buffer_sentence :: "Tokenizer \<Rightarrow> Frame list \<Rightarrow> Sentence" where
  "buffer_sentence tok run =
     \<lparr>Sentence_Text = buffer_text run,
      Sentence_StartTime = (case run of [] \<Rightarrow> [] | first # rest \<Rightarrow> Frame_StartTime first),
      Sentence_Embedding = [], Sentence_TokenCount = CountTokens tok (buffer_text run)\<rparr>"

fun buffer_provisional :: "Tokenizer \<Rightarrow> Frame list \<Rightarrow> Frame list \<Rightarrow> Sentence list" where
  "buffer_provisional tok run [] =
     (if buffer_text run \<noteq> [] then [buffer_sentence tok run] else [])"
| "buffer_provisional tok run (frame # frames) =
     (if endsSentence (Frame_Text frame)
      then buffer_sentence tok (run @ [frame]) # buffer_provisional tok [] frames
      else buffer_provisional tok (run @ [frame]) frames)"

section \<open>Example capabilities and inputs\<close>

text \<open>
  Concrete tokenizers, a concrete embedding model and a concrete input of the chunker,
  on which the definitions are evaluated below. \<open>word_tokenizer\<close> yields one token
  per field of the text, \<open>byte_tokenizer\<close> one token per byte, and
  \<open>failing_tokenizer\<close> returns an error on every text; the example model gives every
  item the same vector.
\<close>

definition word_tokenizer :: Tokenizer where
  "word_tokenizer text = Inr (map length (Fields text))"

definition byte_tokenizer :: Tokenizer where
  "byte_tokenizer text = Inr (map of_char text)"

definition failing_tokenizer :: Tokenizer where
  "failing_tokenizer text = Inl ''tokenizer failed''"

definition example_model :: EmbeddingModel where
  "example_model =
     \<lparr>EmbeddingModel_Tokenizer = word_tokenizer,
      EmbedSentences = (\<lambda>items. Inr (map (\<lambda>s. s\<lparr>Sentence_Embedding := [1, 0]\<rparr>) items)),
      EmbedChunks = (\<lambda>items. Inr (map (\<lambda>c. c\<lparr>Chunk_Embedding := [1, 0]\<rparr>) items))\<rparr>"

definition example_config :: ChunkingConfig where
  "example_config = \<lparr>OptimalSize = 8, MaxSize = 10, LambdaSize = 2, ChunkPenalty = 1\<rparr>"

definition example_sentences :: "Sentence list" where
  "example_sentences =
     [\<lparr>Sentence_Text = ''One two.'', Sentence_StartTime = ''00:01'',
       Sentence_Embedding = [1, 0], Sentence_TokenCount = 6\<rparr>,
      \<lparr>Sentence_Text = ''Three.'', Sentence_StartTime = ''00:02'',
       Sentence_Embedding = [1, 0], Sentence_TokenCount = 4\<rparr>,
      \<lparr>Sentence_Text = ''Four five.'', Sentence_StartTime = ''00:03'',
       Sentence_Embedding = [0, 1], Sentence_TokenCount = 5\<rparr>]"

section \<open>Properties of the segmenter\<close>

subsection \<open>The word-splitting loops\<close>

text \<open>The inner loop stops between the word count it starts with and \<open>len(words)\<close>.\<close>

lemma add_words_bounds:
  "wordCount \<le> length words \<Longrightarrow>
   wordCount \<le> snd (add_words tok maxTokens words currentChunk wordCount) \<and>
   snd (add_words tok maxTokens words currentChunk wordCount) \<le> length words"
proof (induction tok maxTokens words currentChunk wordCount rule: add_words.induct)
  case (1 tok maxTokens words currentChunk wordCount)
  show ?case
  proof (cases "wordCount < length words")
    case False
    with "1.prems" show ?thesis by (simp add: add_words.simps)
  next
    case True
    show ?thesis
    proof (cases "CountTokens tok (currentChunk @ '' '' @ words ! wordCount) > maxTokens")
      case over: True
      with True show ?thesis by (simp add: add_words.simps [of tok maxTokens words currentChunk wordCount])
    next
      case fits: False
      from True have "wordCount + 1 \<le> length words" by simp
      with "1.IH" [OF True refl refl] fits
      have "wordCount + 1 \<le> snd (add_words tok maxTokens words (currentChunk @ '' '' @ words ! wordCount) (wordCount + 1))
          \<and> snd (add_words tok maxTokens words (currentChunk @ '' '' @ words ! wordCount) (wordCount + 1)) \<le> length words"
        by simp
      with True fits show ?thesis
        by (simp add: add_words.simps [of tok maxTokens words currentChunk wordCount])
    qed
  qed
qed

text \<open>
  The text the inner loop returns is the one it was given, or a candidate that passed the
  token test.
\<close>

lemma add_words_tokens:
  "add_words tok maxTokens words currentChunk wordCount = (chunkText, n) \<Longrightarrow>
   (chunkText = currentChunk \<and> n = wordCount) \<or> CountTokens tok chunkText \<le> maxTokens"
proof (induction tok maxTokens words currentChunk wordCount rule: add_words.induct)
  case (1 tok maxTokens words currentChunk wordCount)
  show ?case
  proof (cases "wordCount < length words")
    case False
    with "1.prems" show ?thesis by (simp add: add_words.simps)
  next
    case True
    show ?thesis
    proof (cases "CountTokens tok (currentChunk @ '' '' @ words ! wordCount) > maxTokens")
      case over: True
      with True "1.prems" show ?thesis by (simp add: add_words.simps [of tok maxTokens words currentChunk wordCount])
    next
      case fits: False
      from True fits "1.prems"
      have eq: "add_words tok maxTokens words (currentChunk @ '' '' @ words ! wordCount) (wordCount + 1) = (chunkText, n)"
        by (simp add: add_words.simps [of tok maxTokens words currentChunk wordCount])
      from "1.IH" [OF True refl refl _ eq] fits
      show ?thesis by auto
    qed
  qed
qed

text \<open>
  The outer loop returns, and what it appends: sub-sentences with the given start time
  whose token count is within the limit or whose text is one single word.
\<close>

lemma split_words_total:
  "\<exists>out. split_words tok maxTokens startTime words acc = Some (acc @ out) \<and>
         (words \<noteq> [] \<longrightarrow> out \<noteq> []) \<and>
         (\<forall>s \<in> set out.
            Sentence_StartTime s = startTime \<and> Sentence_Embedding s = [] \<and>
            Sentence_TokenCount s = CountTokens tok (Sentence_Text s) \<and>
            (Sentence_TokenCount s \<le> maxTokens \<or> Sentence_Text s \<in> set words))"
proof (induction "length words" arbitrary: words acc rule: less_induct)
  case less
  show ?case
  proof (cases "words = []")
    case True
    then show ?thesis by (simp add: split_words.simps)
  next
    case False
    obtain chunkText n where aw: "add_words tok maxTokens words (hd words) 1 = (chunkText, n)"
      by (cases "add_words tok maxTokens words (hd words) 1")
    from False have len: "1 \<le> length words" by (cases words) simp_all
    from add_words_bounds [OF len, of tok maxTokens "hd words"] aw
    have n: "1 \<le> n" "n \<le> length words" by simp_all
    let ?sub = "\<lparr>Sentence_Text = chunkText, Sentence_StartTime = startTime,
                  Sentence_Embedding = [], Sentence_TokenCount = CountTokens tok chunkText\<rparr>"
    from n False have shorter: "length (drop n words) < length words" by simp
    from less [OF shorter, of "acc @ [?sub]"]
    obtain out where out: "split_words tok maxTokens startTime (drop n words) (acc @ [?sub])
                             = Some ((acc @ [?sub]) @ out)"
      and props: "\<forall>s \<in> set out.
            Sentence_StartTime s = startTime \<and> Sentence_Embedding s = [] \<and>
            Sentence_TokenCount s = CountTokens tok (Sentence_Text s) \<and>
            (Sentence_TokenCount s \<le> maxTokens \<or> Sentence_Text s \<in> set (drop n words))"
      by blast
    from add_words_tokens [OF aw] False
    have first: "CountTokens tok chunkText \<le> maxTokens \<or> chunkText \<in> set words"
      by auto
    have eq: "split_words tok maxTokens startTime words acc = Some (acc @ (?sub # out))"
      using False aw out by (subst split_words.simps) simp
    have "\<forall>s \<in> set (?sub # out).
            Sentence_StartTime s = startTime \<and> Sentence_Embedding s = [] \<and>
            Sentence_TokenCount s = CountTokens tok (Sentence_Text s) \<and>
            (Sentence_TokenCount s \<le> maxTokens \<or> Sentence_Text s \<in> set words)"
      using props first by (auto dest: in_set_dropD)
    with eq show ?thesis by blast
  qed
qed

text \<open>The same for the whole post-processing pass.\<close>

lemma split_oversized_total:
  "\<exists>out. split_oversized tok maxTokens sents acc = Some (acc @ out) \<and>
         (\<forall>s \<in> set out.
            (s \<in> set sents \<and> (Sentence_TokenCount s \<le> maxTokens \<or> Fields (Sentence_Text s) = [])) \<or>
            (\<exists>p \<in> set sents. maxTokens < Sentence_TokenCount p \<and>
               Sentence_StartTime s = Sentence_StartTime p \<and> Sentence_Embedding s = [] \<and>
               Sentence_TokenCount s = CountTokens tok (Sentence_Text s) \<and>
               (Sentence_TokenCount s \<le> maxTokens \<or> Sentence_Text s \<in> set (Fields (Sentence_Text p)))))"
proof (induction sents arbitrary: acc)
  case Nil
  show ?case by simp
next
  case (Cons sent rest)
  let ?P = "\<lambda>sents s. (s \<in> set sents \<and> (Sentence_TokenCount s \<le> maxTokens \<or> Fields (Sentence_Text s) = [])) \<or>
            (\<exists>p \<in> set sents. maxTokens < Sentence_TokenCount p \<and>
               Sentence_StartTime s = Sentence_StartTime p \<and> Sentence_Embedding s = [] \<and>
               Sentence_TokenCount s = CountTokens tok (Sentence_Text s) \<and>
               (Sentence_TokenCount s \<le> maxTokens \<or> Sentence_Text s \<in> set (Fields (Sentence_Text p))))"
  have mono: "?P rest s \<Longrightarrow> ?P (sent # rest) s" for s by auto
  show ?case
  proof (cases "Sentence_TokenCount sent \<le> maxTokens \<or> Fields (Sentence_Text sent) = []")
    case True
    from Cons [of "acc @ [sent]"] obtain out where
      out: "split_oversized tok maxTokens rest (acc @ [sent]) = Some ((acc @ [sent]) @ out)"
      and props: "\<forall>s \<in> set out. ?P rest s" by blast
    from True out have "split_oversized tok maxTokens (sent # rest) acc = Some (acc @ (sent # out))"
      by auto
    moreover have "?P (sent # rest) sent" using True by simp
    ultimately show ?thesis using props mono by (intro exI [of _ "sent # out"]) auto
  next
    case False
    then have big: "maxTokens < Sentence_TokenCount sent" and ws: "Fields (Sentence_Text sent) \<noteq> []"
      by auto
    from split_words_total [of tok maxTokens "Sentence_StartTime sent" "Fields (Sentence_Text sent)" acc]
    obtain subs where subs: "split_words tok maxTokens (Sentence_StartTime sent) (Fields (Sentence_Text sent)) acc
                               = Some (acc @ subs)"
      and sprops: "\<forall>s \<in> set subs.
            Sentence_StartTime s = Sentence_StartTime sent \<and> Sentence_Embedding s = [] \<and>
            Sentence_TokenCount s = CountTokens tok (Sentence_Text s) \<and>
            (Sentence_TokenCount s \<le> maxTokens \<or> Sentence_Text s \<in> set (Fields (Sentence_Text sent)))"
      by blast
    from Cons [of "acc @ subs"] obtain out where
      out: "split_oversized tok maxTokens rest (acc @ subs) = Some ((acc @ subs) @ out)"
      and props: "\<forall>s \<in> set out. ?P rest s" by blast
    from big ws subs out
    have "split_oversized tok maxTokens (sent # rest) acc = Some (acc @ (subs @ out))"
      by simp
    moreover have "\<forall>s \<in> set subs. ?P (sent # rest) s" using sprops big by auto
    ultimately show ?thesis using props mono by (intro exI [of _ "subs @ out"]) auto
  qed
qed

lemma ExtractSentencesFromFrames_total:
  "\<exists>ss. ExtractSentencesFromFrames tok frames = Some ss"
  using split_oversized_total [of tok 512 "provisional_sentences tok frames" "[]"]
  by (auto simp: ExtractSentencesFromFrames_def)

lemma ExtractSentencesFromText_total:
  "\<exists>ss. ExtractSentencesFromText tok text maxSize = Some ss"
  using split_oversized_total [of tok maxSize "text_sentences tok text" "[]"]
  by (auto simp: ExtractSentencesFromText_def)

text \<open>
  Claim C10. For every sentence list and every tokenizer (a parameter here, so also one
  that returns an error on every text), the word-splitting pass returns: the pass over
  the sentences and its outer loop over the words both have a result, and every iteration
  of the outer loop on a non-empty word list takes at least one word, leaving a strictly
  shorter list.
\<close>

theorem split_pass_terminates:
  "(\<exists>out. split_oversized tok maxTokens sents acc = Some out) \<and>
   (\<exists>out. split_words tok maxTokens startTime words acc' = Some out) \<and>
   (words \<noteq> [] \<longrightarrow>
      1 \<le> snd (add_words tok maxTokens words (hd words) 1) \<and>
      length (drop (snd (add_words tok maxTokens words (hd words) 1)) words) < length words)"
proof (intro conjI impI)
  from split_oversized_total [of tok maxTokens sents acc]
  show "\<exists>out. split_oversized tok maxTokens sents acc = Some out" by blast
  from split_words_total [of tok maxTokens startTime words acc']
  show "\<exists>out. split_words tok maxTokens startTime words acc' = Some out" by blast
next
  assume ne: "words \<noteq> []"
  then have len: "1 \<le> length words" by (cases words) simp_all
  from add_words_bounds [OF len, of tok maxTokens "hd words"]
  show "1 \<le> snd (add_words tok maxTokens words (hd words) 1)" by simp
  with ne show "length (drop (snd (add_words tok maxTokens words (hd words) 1)) words) < length words"
    by simp
qed

theorem split_pass_terminates_witness:
  "[''wordA'', ''wordB''] \<noteq> [] \<and>
   (\<exists>out. split_oversized failing_tokenizer 512
             [\<lparr>Sentence_Text = ''wordA wordB'', Sentence_StartTime = [],
               Sentence_Embedding = [], Sentence_TokenCount = 600\<rparr>] [] = Some out) \<and>
   (\<exists>out. split_words failing_tokenizer 512 [] [''wordA'', ''wordB''] [] = Some out) \<and>
   1 \<le> snd (add_words failing_tokenizer 512 [''wordA'', ''wordB''] (hd [''wordA'', ''wordB'']) 1) \<and>
   length (drop (snd (add_words failing_tokenizer 512 [''wordA'', ''wordB'']
                        (hd [''wordA'', ''wordB'']) 1)) [''wordA'', ''wordB''])
     < length [''wordA'', ''wordB'']"
  using split_pass_terminates [of failing_tokenizer 512
          "[\<lparr>Sentence_Text = ''wordA wordB'', Sentence_StartTime = [],
               Sentence_Embedding = [], Sentence_TokenCount = 600\<rparr>]" "[]" "[]"
          "[''wordA'', ''wordB'']" "[]"]
  by simp

text \<open>
  Claim C7. When the tokenizer returns an error on a text, \<open>CountTokens\<close> is 0 there;
  and for every tokenizer and every input both segmenters return a sentence list.
\<close>

theorem segmenter_never_fails:
  "(tok text = Inl err \<longrightarrow> CountTokens tok text = 0) \<and>
   (\<exists>ss. ExtractSentencesFromFrames tok frames = Some ss) \<and>
   (\<exists>ss. ExtractSentencesFromText tok text' maxSize = Some ss)"
  using ExtractSentencesFromFrames_total [of tok frames]
        ExtractSentencesFromText_total [of tok text' maxSize]
  by (simp add: CountTokens_def)

theorem segmenter_never_fails_witness:
  "failing_tokenizer ''Hello world.'' = Inl ''tokenizer failed'' \<and>
   CountTokens failing_tokenizer ''Hello world.'' = 0 \<and>
   (\<exists>ss. ExtractSentencesFromFrames failing_tokenizer
            [\<lparr>Frame_Text = ''Hello world.'', Frame_StartTime = [], Frame_EndTime = []\<rparr>] = Some ss) \<and>
   (\<exists>ss. ExtractSentencesFromText failing_tokenizer ''Hello world.'' 512 = Some ss)"
  using segmenter_never_fails [of failing_tokenizer "''Hello world.''" "''tokenizer failed''"
          "[\<lparr>Frame_Text = ''Hello world.'', Frame_StartTime = [], Frame_EndTime = []\<rparr>]"
          "''Hello world.''" 512]
  by (simp add: failing_tokenizer_def)

subsection \<open>Evaluation on concrete inputs\<close>

text \<open>The definitions that the simplifier unfolds to run the frame loop on a concrete input.\<close>

lemmas seg_eval = ExtractSentencesFromFrames_def provisional_sentences_def flush_remaining_def
  frame_step_def seg_init_def endsSentence_def TrimSpace_def HasSuffix_def isSpace_def
  CountTokens_def Fields_def Let_def

subsection \<open>The frame loop\<close>

lemma join_space_snoc: "ts \<noteq> [] \<Longrightarrow> join_space (ts @ [t]) = join_space ts @ '' '' @ t"
  by (induction ts rule: join_space.induct) simp_all

lemma join_space_nonempty: "ts \<noteq> [] \<Longrightarrow> hd ts \<noteq> [] \<Longrightarrow> join_space ts \<noteq> []"
  by (cases ts rule: join_space.cases) simp_all

lemma buffer_text_snoc:
  "buffer_text (run @ [frame]) =
     (if length (buffer_text run) > 0 then buffer_text run @ '' '' else buffer_text run)
       @ Frame_Text frame"
proof (cases "\<forall>t \<in> set (map Frame_Text run). t = []")
  case True
  then have e1: "dropWhile (\<lambda>t. t = []) (map Frame_Text run) = []" by simp
  from True have e2: "dropWhile (\<lambda>t. t = []) (map Frame_Text run @ [Frame_Text frame])
      = dropWhile (\<lambda>t. t = []) [Frame_Text frame]"
    by (intro dropWhile_append2) auto
  have old: "buffer_text run = []"
    by (simp only: buffer_text_def e1 join_space.simps)
  have "buffer_text (run @ [frame]) = join_space (dropWhile (\<lambda>t. t = []) [Frame_Text frame])"
    by (simp only: buffer_text_def map_append list.map e2)
  also have "\<dots> = Frame_Text frame" by simp
  finally show ?thesis by (simp add: old)
next
  case False
  then obtain x where x: "x \<in> set (map Frame_Text run)" "x \<noteq> []" by blast
  let ?ds = "dropWhile (\<lambda>t. t = []) (map Frame_Text run)"
  from x have app: "dropWhile (\<lambda>t. t = []) (map Frame_Text run @ [Frame_Text frame]) = ?ds @ [Frame_Text frame]"
    by (intro dropWhile_append1) simp_all
  from x have ne: "?ds \<noteq> []" by (auto simp: dropWhile_eq_Nil_conv)
  then have "hd ?ds \<noteq> []" using hd_dropWhile [of "\<lambda>t. t = []" "map Frame_Text run"] by simp
  with ne have "join_space ?ds \<noteq> []" by (rule join_space_nonempty)
  with app ne show ?thesis by (simp add: buffer_text_def join_space_snoc)
qed

lemma frame_loop_buffer:
  assumes "currentSentenceText st = buffer_text run"
    and "isFirstFrame st \<longleftrightarrow> run = []"
    and "run \<noteq> [] \<longrightarrow> currentStartTime st = Frame_StartTime (hd run)"
  shows "flush_remaining tok (foldl (frame_step tok) st frames)
           = sentences st @ buffer_provisional tok run frames"
  using assms
proof (induction frames arbitrary: st run)
  case Nil
  have "buffer_text [] = []" by (simp add: buffer_text_def)
  with Nil show ?case
    by (cases run) (auto simp: flush_remaining_def buffer_sentence_def)
next
  case (Cons frame frames)
  let ?st = "frame_step tok st frame"
  have start: "(if isFirstFrame st then Frame_StartTime frame else currentStartTime st)
                 = Frame_StartTime (hd (run @ [frame]))"
    using Cons.prems(2,3) by (cases run) simp_all
  have buf: "(if length (currentSentenceText st) > 0 then currentSentenceText st @ '' ''
              else currentSentenceText st) @ Frame_Text frame = buffer_text (run @ [frame])"
    using Cons.prems(1) by (simp only: buffer_text_snoc)
  have case_hd: "(case run @ [frame] of [] \<Rightarrow> [] | first # rest \<Rightarrow> Frame_StartTime first)
                   = Frame_StartTime (hd (run @ [frame]))"
    by (cases run) simp_all
  show ?case
  proof (cases "endsSentence (Frame_Text frame)")
    case True
    with start buf case_hd
    have st': "sentences ?st = sentences st @ [buffer_sentence tok (run @ [frame])]"
      "currentSentenceText ?st = buffer_text []" "isFirstFrame ?st \<longleftrightarrow> ([]::Frame list) = []"
      by (simp_all add: frame_step_def Let_def buffer_sentence_def buffer_text_def)
    from Cons.IH [OF st'(2,3)] st'(1) True show ?thesis by simp
  next
    case False
    with start buf
    have st': "sentences ?st = sentences st"
      "currentSentenceText ?st = buffer_text (run @ [frame])"
      "isFirstFrame ?st \<longleftrightarrow> run @ [frame] = []"
      "run @ [frame] \<noteq> [] \<longrightarrow> currentStartTime ?st = Frame_StartTime (hd (run @ [frame]))"
      by (simp_all add: frame_step_def Let_def)
    from Cons.IH [OF st'(2,3,4)] st'(1) False show ?thesis by simp
  qed
qed

text \<open>
  Claim C8, as amended. For every frame sequence the provisional sentences are those of
  \<open>buffer_provisional\<close>: the frame texts are accumulated in order, a single space is
  written before a frame's text exactly when the buffer is already non-empty, the start
  time is that of the first frame taken after the last emission (whether or not its text
  is empty), the buffer is emitted exactly when a frame's trimmed text ends in \<open>.\<close>,
  \<open>!\<close> or \<open>?\<close>, and after the last frame a non-empty remaining buffer is emitted with
  the remembered start time.
\<close>

theorem provisional_sentences_buffer:
  "provisional_sentences tok frames = buffer_provisional tok [] frames"
  using frame_loop_buffer [of seg_init "[]" tok frames]
  by (simp add: provisional_sentences_def seg_init_def buffer_text_def)

text \<open>
  Claim C8 as stated does not hold: with a first frame of empty text and start time
  00:01, followed by the frame \<open>Hi.\<close> with start time 00:02, the code emits the text
  \<open>Hi.\<close> with start time 00:01. Joining the two frame texts with a single space gives
  \<open> Hi.\<close> with a leading space; and if the empty frame is not counted as contributing,
  the start time of the first contributing frame is 00:02.
\<close>

theorem provisional_sentences_counterexample:
  "provisional_sentences word_tokenizer
     [\<lparr>Frame_Text = [], Frame_StartTime = ''00:01'', Frame_EndTime = []\<rparr>,
      \<lparr>Frame_Text = ''Hi.'', Frame_StartTime = ''00:02'', Frame_EndTime = []\<rparr>]
     = [\<lparr>Sentence_Text = ''Hi.'', Sentence_StartTime = ''00:01'', Sentence_Embedding = [],
         Sentence_TokenCount = 1\<rparr>] \<and>
   spec_provisional word_tokenizer []
     [\<lparr>Frame_Text = [], Frame_StartTime = ''00:01'', Frame_EndTime = []\<rparr>,
      \<lparr>Frame_Text = ''Hi.'', Frame_StartTime = ''00:02'', Frame_EndTime = []\<rparr>]
     = [\<lparr>Sentence_Text = '' Hi.'', Sentence_StartTime = ''00:01'', Sentence_Embedding = [],
         Sentence_TokenCount = 1\<rparr>] \<and>
   provisional_sentences word_tokenizer
     [\<lparr>Frame_Text = [], Frame_StartTime = ''00:01'', Frame_EndTime = []\<rparr>,
      \<lparr>Frame_Text = ''Hi.'', Frame_StartTime = ''00:02'', Frame_EndTime = []\<rparr>]
     \<noteq> spec_provisional word_tokenizer []
         [\<lparr>Frame_Text = [], Frame_StartTime = ''00:01'', Frame_EndTime = []\<rparr>,
          \<lparr>Frame_Text = ''Hi.'', Frame_StartTime = ''00:02'', Frame_EndTime = []\<rparr>]"
  by (simp add: seg_eval spec_sentence_def word_tokenizer_def)

subsection \<open>Empty and blank inputs\<close>

lemma TrimSpace_blank:
  assumes "\<forall>c \<in> set text. isSpace c"
  shows "TrimSpace text = []"
proof -
  from assms have blank: "dropWhile isSpace text = []" by simp
  show ?thesis unfolding TrimSpace_def blank by simp
qed

lemma endsSentence_blank: "\<forall>c \<in> set text. isSpace c \<Longrightarrow> \<not> endsSentence text"
  by (simp add: endsSentence_def TrimSpace_blank HasSuffix_def)

lemma frame_loop_empty_texts:
  assumes "\<forall>frame \<in> set frames. Frame_Text frame = []" and "currentSentenceText st = []"
  shows "sentences (foldl (frame_step tok) st frames) = sentences st \<and>
         currentSentenceText (foldl (frame_step tok) st frames) = []"
  using assms
proof (induction frames arbitrary: st)
  case Nil
  then show ?case by simp
next
  case (Cons frame frames)
  from Cons.prems have "Frame_Text frame = []" by simp
  with Cons.prems(2) endsSentence_blank [of "[]"]
  have step: "sentences (frame_step tok st frame) = sentences st"
    "currentSentenceText (frame_step tok st frame) = []"
    by (simp_all add: frame_step_def Let_def)
  from Cons.prems(1) have "\<forall>frame \<in> set frames. Frame_Text frame = []" by simp
  from Cons.IH [OF this step(2)] step(1) show ?case by simp
qed

text \<open>
  What holds of the empty inputs: both segmenters return the empty sequence for the empty
  input, and \<open>ExtractSentencesFromFrames\<close> returns the empty sequence when every frame
  has the empty text.
\<close>

lemma empty_inputs_yield_nothing:
  "ExtractSentencesFromFrames tok [] = Some [] \<and>
   ExtractSentencesFromText tok [] maxSize = Some [] \<and>
   ((\<forall>frame \<in> set frames. Frame_Text frame = []) \<longrightarrow>
      ExtractSentencesFromFrames tok frames = Some [])"
proof (intro conjI impI)
  show "ExtractSentencesFromFrames tok [] = Some []"
    by (simp add: ExtractSentencesFromFrames_def)
  show "ExtractSentencesFromText tok [] maxSize = Some []"
    by (simp add: ExtractSentencesFromText_def)
next
  assume "\<forall>frame \<in> set frames. Frame_Text frame = []"
  from frame_loop_empty_texts [OF this, of seg_init tok]
  have "provisional_sentences tok frames = []"
    by (simp add: provisional_sentences_def flush_remaining_def seg_init_def)
  then show "ExtractSentencesFromFrames tok frames = Some []"
    by (simp add: ExtractSentencesFromFrames_def)
qed

text \<open>
  Claim C5. A frame of white space only does produce a sentence in
  \<open>ExtractSentencesFromFrames\<close>: the remaining buffer is tested for its length, not for
  its content, so the single frame whose text is one space is emitted as the sentence
  of that text. \<open>ExtractSentencesFromText\<close>, which goes through the words of the text,
  returns no sentence for the same text.
\<close>

theorem blank_frame_emitted:
  "ExtractSentencesFromFrames word_tokenizer
     [\<lparr>Frame_Text = '' '', Frame_StartTime = [], Frame_EndTime = []\<rparr>]
   = Some [\<lparr>Sentence_Text = '' '', Sentence_StartTime = [], Sentence_Embedding = [],
            Sentence_TokenCount = 0\<rparr>] \<and>
   ExtractSentencesFromText word_tokenizer '' '' 512 = Some []"
  by (simp add: seg_eval word_tokenizer_def ExtractSentencesFromText_def text_sentences_def)

text \<open>
  The blank sentence goes on through \<open>processText\<close>: a document whose text is one space
  passes the test for empty text and comes back as one chunk of that text.
\<close>

lemma blank_document_chunked:
  "processText example_model '' '' DefaultChunkingConfig
   = Some (Inr [\<lparr>Chunk_Text = '' '', Chunk_StartTime = [], Chunk_Embedding = [1, 0],
                  Chunk_NumSentences = 1, Chunk_TokenCount = 0, Chunk_ChunkIndex = 0,
                  Chunk_SentenceEmbeddings = [[1, 0]]\<rparr>])"
proof -
  have sents: "ExtractSentencesFromFrames word_tokenizer
     [\<lparr>Frame_Text = '' '', Frame_StartTime = [], Frame_EndTime = []\<rparr>]
   = Some [\<lparr>Sentence_Text = '' '', Sentence_StartTime = [], Sentence_Embedding = [],
            Sentence_TokenCount = 0\<rparr>]"
    by (simp add: seg_eval word_tokenizer_def)
  let ?s = "\<lparr>Sentence_Text = '' '', Sentence_StartTime = [], Sentence_Embedding = [1, 0],
            Sentence_TokenCount = 0\<rparr>"
  have run: "dp_run DefaultChunkingConfig [0] [0, 0] (Suc 0) = Inr ([0, -1], [0, 0])"
    by (simp add: dp_run_def dp_step_def best_start_def better_def candidate_def size_penalty_def
          segment_tokens_def segment_reward_def DefaultChunkingConfig_def)
  have walk: "reconstruct [0, 0] (Suc 0) [] = Some [(0, Suc 0)]"
    by (simp add: reconstruct.simps)
  have segs: "dp_segments DefaultChunkingConfig [?s] = Some (Inr [(0, Suc 0)])"
    by (simp add: dp_segments_def raw_sim_def normalize_sim_def run walk)
  have chunks: "ExtractChunksFromSentences DefaultChunkingConfig [?s]
    = Some (Inr [\<lparr>Chunk_Text = '' '', Chunk_StartTime = [], Chunk_Embedding = [],
                  Chunk_NumSentences = 1, Chunk_TokenCount = 0, Chunk_ChunkIndex = 0,
                  Chunk_SentenceEmbeddings = [[1, 0]]\<rparr>])"
    unfolding ExtractChunksFromSentences_def segs
    by (simp add: build_chunk_def segment_sentences_def)
  show ?thesis
    by (simp add: processText_def example_model_def sents chunks)
qed

subsection \<open>The token limit\<close>

text \<open>
  Claim C1. \<open>processText\<close> builds the sentences with \<open>ExtractSentencesFromFrames\<close>, whose
  limit is the constant 512 whatever the chunking configuration says. With one token per
  word and a configuration whose \<open>MaxSize\<close> is 4, a text of six words stays one sentence
  of 6 tokens, above \<open>MaxSize\<close>; \<open>ExtractSentencesFromText\<close>, given the limit 4, splits
  the same text into sentences of 4 and 2 tokens.
\<close>

theorem hard_coded_limit_ignores_max_size:
  "ExtractSentencesFromFrames word_tokenizer
     [\<lparr>Frame_Text = ''one two three four five six'', Frame_StartTime = [], Frame_EndTime = []\<rparr>]
   = Some [\<lparr>Sentence_Text = ''one two three four five six'', Sentence_StartTime = [],
            Sentence_Embedding = [], Sentence_TokenCount = 6\<rparr>] \<and>
   \<not> 6 \<le> MaxSize \<lparr>OptimalSize = 3, MaxSize = 4, LambdaSize = 2, ChunkPenalty = 1\<rparr> \<and>
   ExtractSentencesFromText word_tokenizer ''one two three four five six'' 4
   = Some [\<lparr>Sentence_Text = ''one two three four'', Sentence_StartTime = [],
            Sentence_Embedding = [], Sentence_TokenCount = 4\<rparr>,
           \<lparr>Sentence_Text = ''five six'', Sentence_StartTime = [],
            Sentence_Embedding = [], Sentence_TokenCount = 2\<rparr>]"
  by (simp add: ExtractSentencesFromText_def text_sentences_def word_step_def seg_eval word_tokenizer_def
        split_words.simps add_words.simps)

lemma Fields_from_replicate:
  "\<not> isSpace c \<Longrightarrow> Fields_from cur (replicate n c @ rest) = Fields_from (cur @ replicate n c) rest"
proof (induction n arbitrary: cur)
  case 0
  show ?case by simp
next
  case (Suc n)
  from Suc.prems have "Fields_from cur (replicate (Suc n) c @ rest)
      = Fields_from (cur @ [c]) (replicate n c @ rest)" by simp
  also have "\<dots> = Fields_from ((cur @ [c]) @ replicate n c) rest"
    by (rule Suc.IH [OF Suc.prems])
  finally show ?case by simp
qed

lemma dropWhile_replicate_append:
  "\<not> P c \<Longrightarrow> 0 < n \<Longrightarrow> dropWhile P (replicate n c @ rest) = replicate n c @ rest"
  by (cases n) simp_all

lemma byte_tokenizer_count: "CountTokens byte_tokenizer text = int (length text)"
  by (simp add: CountTokens_def byte_tokenizer_def)

lemma long_word_fields:
  "Fields (replicate 513 CHR ''x'' @ '' tail.'') = [replicate 513 CHR ''x'', ''tail.'']"
  by (simp add: Fields_def Fields_from_replicate isSpace_def)

lemma long_word_ends: "endsSentence (replicate 513 CHR ''x'' @ '' tail.'')"
  by (simp add: endsSentence_def TrimSpace_def HasSuffix_def dropWhile_replicate_append
        dropWhile_append3 isSpace_def)

text \<open>
  Claim C3. The first word of every sub-sentence is taken without a token test. With one
  token per byte, a sentence made of a word of 513 bytes followed by \<open>tail.\<close> (519
  tokens) is split into two sub-sentences with the parent's start time, the first of which
  has 513 tokens, above the limit of 512.
\<close>

theorem oversized_word_not_split:
  "ExtractSentencesFromFrames byte_tokenizer
     [\<lparr>Frame_Text = replicate 513 CHR ''x'' @ '' tail.'', Frame_StartTime = ''00:07'',
       Frame_EndTime = []\<rparr>]
   = Some [\<lparr>Sentence_Text = replicate 513 CHR ''x'', Sentence_StartTime = ''00:07'',
            Sentence_Embedding = [], Sentence_TokenCount = 513\<rparr>,
           \<lparr>Sentence_Text = ''tail.'', Sentence_StartTime = ''00:07'',
            Sentence_Embedding = [], Sentence_TokenCount = 5\<rparr>]"
proof -
  let ?w = "replicate 513 CHR ''x''"
  have prov: "provisional_sentences byte_tokenizer
      [\<lparr>Frame_Text = ?w @ '' tail.'', Frame_StartTime = ''00:07'', Frame_EndTime = []\<rparr>]
    = [\<lparr>Sentence_Text = ?w @ '' tail.'', Sentence_StartTime = ''00:07'',
        Sentence_Embedding = [], Sentence_TokenCount = 519\<rparr>]"
    using long_word_ends
    by (simp add: provisional_sentences_def flush_remaining_def frame_step_def seg_init_def
          byte_tokenizer_count Let_def)
  have first: "add_words byte_tokenizer 512 [?w, ''tail.''] ?w (Suc 0) = (?w, Suc 0)"
    by (subst add_words.simps) (simp add: byte_tokenizer_count)
  have second: "add_words byte_tokenizer 512 [''tail.''] ''tail.'' (Suc 0) = (''tail.'', Suc 0)"
    by (subst add_words.simps) simp
  have split: "split_words byte_tokenizer 512 ''00:07'' [?w, ''tail.''] []
    = Some [\<lparr>Sentence_Text = ?w, Sentence_StartTime = ''00:07'',
              Sentence_Embedding = [], Sentence_TokenCount = 513\<rparr>,
            \<lparr>Sentence_Text = ''tail.'', Sentence_StartTime = ''00:07'',
              Sentence_Embedding = [], Sentence_TokenCount = 5\<rparr>]"
    by (simp add: split_words.simps first second byte_tokenizer_count)
  show ?thesis
    by (simp add: ExtractSentencesFromFrames_def prov long_word_fields split)
qed

section \<open>Properties of the DP chunker\<close>

subsection \<open>Prefix sums and the running maximum\<close>

lemma prefix_from_length: "length (prefix_from acc xs) = length xs + 1"
  by (induction xs arbitrary: acc) simp_all

lemma prefix_from_nth:
  "k \<le> length xs \<Longrightarrow> prefix_from acc xs ! k = acc + sum_list (take k xs)"
proof (induction xs arbitrary: acc k)
  case Nil
  then show ?case by simp
next
  case (Cons x xs)
  show ?case
  proof (cases k)
    case 0
    then show ?thesis by simp
  next
    case (Suc m)
    with Cons.prems have "m \<le> length xs" by simp
    from Cons.IH [OF this, of "acc + x"] Suc show ?thesis
      by (simp add: add.assoc)
  qed
qed

lemma segment_tokens_sum:
  assumes "i \<le> j" "j \<le> length ss"
  shows "segment_tokens (prefix_from 0 (map Sentence_TokenCount ss)) i j
           = sum_list (map Sentence_TokenCount (segment_sentences ss (i, j)))"
proof -
  let ?ts = "map Sentence_TokenCount ss"
  from assms have i: "i \<le> length ?ts" and j: "j \<le> length ?ts" by simp_all
  have "take j ?ts = take i ?ts @ take (j - i) (drop i ?ts)"
    using assms(1) by (metis le_add_diff_inverse take_add)
  then have "sum_list (take j ?ts) = sum_list (take i ?ts) + sum_list (take (j - i) (drop i ?ts))"
    by simp
  then show ?thesis
    by (simp add: segment_tokens_def segment_sentences_def prefix_from_nth [OF i]
          prefix_from_nth [OF j] take_map drop_map)
qed

text \<open>The running maximum only ever holds a legal index of the range walked so far.\<close>

lemma better_fold_legal:
  assumes "foldl (\<lambda>best i. better best i (cand i)) best0 is = Some (i, score)"
    and "\<And>i score. best0 = Some (i, score) \<Longrightarrow> P i"
    and "\<And>i. i \<in> set is \<Longrightarrow> cand i \<noteq> None \<Longrightarrow> P i"
  shows "P i"
  using assms
proof (induction "is" arbitrary: best0)
  case Nil
  then show ?case by simp
next
  case (Cons a as)
  have step: "P i" if "better best0 a (cand a) = Some (i, score)" for i score
  proof (cases "cand a")
    case None
    with that have "best0 = Some (i, score)" by (simp add: better_def)
    then show ?thesis by (rule Cons.prems(2))
  next
    case (Some s)
    then have a: "P a" using Cons.prems(3) [of a] by simp
    show ?thesis
    proof (cases best0)
      case None
      with Some that have "i = a" by (simp add: better_def)
      with a show ?thesis by simp
    next
      case (Some b)
      obtain bi bscore where b: "b = (bi, bscore)" by (cases b)
      from Cons.prems(2) [of bi bscore] Some b have "P bi" by simp
      with a that \<open>cand a = Some s\<close> Some b show ?thesis
        by (auto simp: better_def split: if_splits)
    qed
  qed
  from Cons.prems(1) have "foldl (\<lambda>best i. better best i (cand i)) (better best0 a (cand a)) as = Some (i, score)"
    by simp
  from Cons.IH [OF this step] Cons.prems(3) show ?case by simp
qed

lemma better_fold_Some:
  assumes "best0 \<noteq> None \<or> (\<exists>i \<in> set is. cand i \<noteq> None)"
  shows "foldl (\<lambda>best i. better best i (cand i)) best0 is \<noteq> None"
  using assms
proof (induction "is" arbitrary: best0)
  case Nil
  then show ?case by simp
next
  case (Cons a as)
  have "better best0 a (cand a) \<noteq> None \<or> (\<exists>i \<in> set as. cand i \<noteq> None)"
    using Cons.prems
    by (auto simp: better_def split: option.splits prod.splits if_splits)
  from Cons.IH [OF this] show ?case by simp
qed

lemma candidate_legal:
  "(candidate cfg psim ptok dp i j = None) = (\<not> segment_tokens ptok i j \<le> MaxSize cfg)"
  by (simp add: candidate_def size_penalty_def split: option.splits)

lemma best_start_legal:
  assumes "best_start cfg psim ptok dp j = Some (i, score)"
  shows "i < j \<and> segment_tokens ptok i j \<le> MaxSize cfg"
proof -
  have "i \<in> set [0..<j] \<and> candidate cfg psim ptok dp i j \<noteq> None"
    by (rule better_fold_legal [where P = "\<lambda>i. i \<in> set [0..<j] \<and> candidate cfg psim ptok dp i j \<noteq> None",
          OF assms [unfolded best_start_def]]) simp_all
  then show ?thesis using candidate_legal [of cfg psim ptok dp i j] by simp
qed

lemma best_start_exists:
  assumes "i < j" "segment_tokens ptok i j \<le> MaxSize cfg"
  shows "best_start cfg psim ptok dp j \<noteq> None"
  unfolding best_start_def
proof (rule better_fold_Some)
  from assms have "i \<in> set [0..<j]" "candidate cfg psim ptok dp i j \<noteq> None"
    using candidate_legal [of cfg psim ptok dp i j] by simp_all
  then show "None \<noteq> None \<or> (\<exists>i \<in> set [0..<j]. candidate cfg psim ptok dp i j \<noteq> None)"
    by blast
qed

subsection \<open>The tables and the walk back\<close>

lemma dp_run_Suc:
  "dp_run cfg psim ptok (Suc n) = dp_step cfg psim ptok (dp_run cfg psim ptok n) (Suc n)"
  by (simp add: dp_run_def)

lemma dp_run_0: "dp_run cfg psim ptok 0 = Inr ([0], [0])"
  by (simp add: dp_run_def)

lemma dp_step_Inr:
  assumes "dp_step cfg psim ptok st j = Inr (dp, start)"
  obtains dp0 start0 i score where "st = Inr (dp0, start0)"
    "best_start cfg psim ptok dp0 j = Some (i, score)"
    "dp = dp0 @ [score]" "start = start0 @ [i]"
  using assms
  by (auto simp: dp_step_def split: sum.splits prod.splits option.splits)

lemma dp_run_inv:
  "dp_run cfg psim ptok n = Inr (dp, start) \<Longrightarrow>
   length start = n + 1 \<and>
   (\<forall>k. 1 \<le> k \<and> k \<le> n \<longrightarrow> start ! k < k \<and> segment_tokens ptok (start ! k) k \<le> MaxSize cfg)"
proof (induction n arbitrary: dp start)
  case 0
  then show ?case by (auto simp: dp_run_0)
next
  case (Suc n)
  from Suc.prems have "dp_step cfg psim ptok (dp_run cfg psim ptok n) (Suc n) = Inr (dp, start)"
    by (simp add: dp_run_Suc)
  then obtain dp0 start0 i score where
    run: "dp_run cfg psim ptok n = Inr (dp0, start0)"
    and best: "best_start cfg psim ptok dp0 (Suc n) = Some (i, score)"
    and start: "start = start0 @ [i]"
    by (rule dp_step_Inr)
  from Suc.IH [OF run] have len: "length start0 = n + 1"
    and old: "\<And>k. 1 \<le> k \<Longrightarrow> k \<le> n \<Longrightarrow>
                start0 ! k < k \<and> segment_tokens ptok (start0 ! k) k \<le> MaxSize cfg"
    by simp_all
  from best_start_legal [OF best]
  have new: "i < Suc n" "segment_tokens ptok i (Suc n) \<le> MaxSize cfg" by simp_all
  have "start ! k < k \<and> segment_tokens ptok (start ! k) k \<le> MaxSize cfg"
    if k: "1 \<le> k" "k \<le> Suc n" for k
  proof (cases "k = Suc n")
    case True
    with start len have "start ! k = i" by (simp add: nth_append)
    with True new show ?thesis by simp
  next
    case False
    with k have kn: "k \<le> n" by simp
    with start len have "start ! k = start0 ! k" by (simp add: nth_append)
    with old [OF k(1) kn] show ?thesis by simp
  qed
  with start len show ?case by simp
qed

lemma dp_run_total:
  "(\<forall>k<n. segment_tokens ptok k (k + 1) \<le> MaxSize cfg) \<Longrightarrow>
   \<exists>dp start. dp_run cfg psim ptok n = Inr (dp, start)"
proof (induction n)
  case 0
  show ?case by (simp add: dp_run_0)
next
  case (Suc n)
  then obtain dp0 start0 where run: "dp_run cfg psim ptok n = Inr (dp0, start0)"
    by auto
  from Suc.prems have "segment_tokens ptok n (Suc n) \<le> MaxSize cfg" by simp
  from best_start_exists [OF _ this, of psim dp0]
  obtain i score where "best_start cfg psim ptok dp0 (Suc n) = Some (i, score)"
    by auto
  with run show ?case by (simp add: dp_run_Suc dp_step_def)
qed

lemma reconstruct_total:
  assumes "\<forall>k. 1 \<le> k \<and> k \<le> j \<longrightarrow> start ! k < k" and "j \<le> length ss"
  shows "\<exists>segs. reconstruct start j emitted = Some (segs @ rev emitted) \<and>
           concat (map (segment_sentences ss) segs) = take j ss \<and>
           (\<forall>seg \<in> set segs. fst seg = start ! snd seg \<and> 1 \<le> snd seg \<and> snd seg \<le> j)"
  using assms
proof (induction j arbitrary: emitted rule: less_induct)
  case (less j)
  show ?case
  proof (cases "j = 0")
    case True
    then show ?thesis by (simp add: reconstruct.simps)
  next
    case False
    let ?i = "start ! j"
    from False less.prems(1) have ij: "?i < j" by simp
    have below: "\<forall>k. 1 \<le> k \<and> k \<le> ?i \<longrightarrow> start ! k < k"
      using less.prems(1) ij by simp
    from ij less.prems(2) have "?i \<le> length ss" by simp
    from less.IH [OF ij below this, of "emitted @ [(?i, j)]"]
    obtain segs where
      segs: "reconstruct start ?i (emitted @ [(?i, j)]) = Some (segs @ rev (emitted @ [(?i, j)]))"
      and cover: "concat (map (segment_sentences ss) segs) = take ?i ss"
      and each: "\<forall>seg \<in> set segs. fst seg = start ! snd seg \<and> 1 \<le> snd seg \<and> snd seg \<le> ?i"
      by blast
    have "reconstruct start j emitted = Some ((segs @ [(?i, j)]) @ rev emitted)"
      using False segs by (subst reconstruct.simps) simp
    moreover have "concat (map (segment_sentences ss) (segs @ [(?i, j)])) = take j ss"
    proof -
      have "take j ss = take ?i ss @ take (j - ?i) (drop ?i ss)"
        using ij by (metis le_add_diff_inverse less_imp_le_nat take_add)
      with cover show ?thesis by (simp add: segment_sentences_def)
    qed
    moreover have "\<forall>seg \<in> set (segs @ [(?i, j)]).
                      fst seg = start ! snd seg \<and> 1 \<le> snd seg \<and> snd seg \<le> j"
      using each ij False by auto
    ultimately show ?thesis by blast
  qed
qed

lemma segment_single:
  "k < length ss \<Longrightarrow> segment_sentences ss (k, Suc k) = [ss ! k]"
  by (simp add: segment_sentences_def Cons_nth_drop_Suc [symmetric])

lemma map_snd_zip_upt:
  "map (\<lambda>p. g (snd p)) (zip [0..<length ys] ys) = map g ys"
proof -
  have "map g ys = map g (map snd (zip [0..<length ys] ys))"
    by (simp add: map_snd_zip)
  also have "\<dots> = map (\<lambda>p. g (snd p)) (zip [0..<length ys] ys)"
    unfolding map_map comp_def ..
  finally show ?thesis by simp
qed

lemma dp_segments_total: "\<exists>r. dp_segments cfg ss = Some r"
proof (cases "ss = []")
  case True
  then show ?thesis by (simp add: dp_segments_def)
next
  case False
  let ?psim = "prefix_from 0 (normalize_sim (raw_sim ss))"
  let ?ptok = "prefix_from 0 (map Sentence_TokenCount ss)"
  show ?thesis
  proof (cases "dp_run cfg ?psim ?ptok (length ss)")
    case (Inl err)
    with False show ?thesis by (simp add: dp_segments_def)
  next
    case (Inr tables)
    obtain dp start where tables: "tables = (dp, start)" by (cases tables)
    from dp_run_inv [OF Inr [unfolded tables]]
    have "\<forall>k. 1 \<le> k \<and> k \<le> length ss \<longrightarrow> start ! k < k" by simp
    from reconstruct_total [OF this order_refl, of "[]"]
    obtain segs where "reconstruct start (length ss) [] = Some segs" by auto
    with False Inr tables show ?thesis by (simp add: dp_segments_def)
  qed
qed

lemma dp_segments_fit:
  assumes "\<forall>s \<in> set ss. Sentence_TokenCount s \<le> MaxSize cfg"
  shows "\<exists>segs. dp_segments cfg ss = Some (Inr segs)"
proof (cases "ss = []")
  case True
  then show ?thesis by (simp add: dp_segments_def)
next
  case False
  let ?psim = "prefix_from 0 (normalize_sim (raw_sim ss))"
  let ?ptok = "prefix_from 0 (map Sentence_TokenCount ss)"
  have "segment_tokens ?ptok k (k + 1) \<le> MaxSize cfg" if "k < length ss" for k
  proof -
    from that have "segment_tokens ?ptok k (k + 1) = Sentence_TokenCount (ss ! k)"
      by (simp add: segment_tokens_sum segment_single)
    with assms that show ?thesis by simp
  qed
  then have "\<forall>k<length ss. segment_tokens ?ptok k (k + 1) \<le> MaxSize cfg" by simp
  from dp_run_total [OF this, of ?psim]
  obtain dp start where run: "dp_run cfg ?psim ?ptok (length ss) = Inr (dp, start)" by blast
  from dp_run_inv [OF run]
  have "\<forall>k. 1 \<le> k \<and> k \<le> length ss \<longrightarrow> start ! k < k" by simp
  from reconstruct_total [OF this order_refl, of "[]"]
  obtain segs where "reconstruct start (length ss) [] = Some segs" by auto
  with False run show ?thesis by (simp add: dp_segments_def)
qed

lemma dp_segments_Inr:
  assumes "dp_segments cfg ss = Some (Inr segs)"
  shows "concat (map (segment_sentences ss) segs) = ss \<and>
         (\<forall>seg \<in> set segs. fst seg < snd seg \<and> snd seg \<le> length ss \<and>
            sum_list (map Sentence_TokenCount (segment_sentences ss seg)) \<le> MaxSize cfg)"
proof (cases "ss = []")
  case True
  with assms show ?thesis by (simp add: dp_segments_def)
next
  case False
  let ?psim = "prefix_from 0 (normalize_sim (raw_sim ss))"
  let ?ptok = "prefix_from 0 (map Sentence_TokenCount ss)"
  from assms False obtain dp start where
    run: "dp_run cfg ?psim ?ptok (length ss) = Inr (dp, start)"
    and rec: "reconstruct start (length ss) [] = Some segs"
    by (auto simp: dp_segments_def Let_def split: sum.splits option.splits prod.splits)
  from dp_run_inv [OF run]
  have inv: "\<forall>k. 1 \<le> k \<and> k \<le> length ss \<longrightarrow>
               start ! k < k \<and> segment_tokens ?ptok (start ! k) k \<le> MaxSize cfg"
    by simp
  then have "\<forall>k. 1 \<le> k \<and> k \<le> length ss \<longrightarrow> start ! k < k" by simp
  from reconstruct_total [OF this order_refl, of "[]"] rec
  have cover: "concat (map (segment_sentences ss) segs) = ss"
    and each: "\<forall>seg \<in> set segs. fst seg = start ! snd seg \<and> 1 \<le> snd seg \<and> snd seg \<le> length ss"
    by auto
  have "fst seg < snd seg \<and> snd seg \<le> length ss \<and>
        sum_list (map Sentence_TokenCount (segment_sentences ss seg)) \<le> MaxSize cfg"
    if "seg \<in> set segs" for seg
  proof -
    from each that have s: "fst seg = start ! snd seg" "1 \<le> snd seg" "snd seg \<le> length ss"
      by simp_all
    with inv have lt: "fst seg < snd seg"
      and legal: "segment_tokens ?ptok (fst seg) (snd seg) \<le> MaxSize cfg" by simp_all
    from lt s(3) have "segment_tokens ?ptok (fst seg) (snd seg)
        = sum_list (map Sentence_TokenCount (segment_sentences ss (fst seg, snd seg)))"
      by (intro segment_tokens_sum) simp_all
    with legal lt s(3) show ?thesis by simp
  qed
  with cover show ?thesis by blast
qed

lemma build_chunks_embeddings:
  "concat (map Chunk_SentenceEmbeddings (map2 (build_chunk ss) [0..<length segs] segs))
     = map Sentence_Embedding (concat (map (segment_sentences ss) segs))"
proof -
  have "map Chunk_SentenceEmbeddings (map2 (build_chunk ss) [0..<length segs] segs)
          = map (\<lambda>p. map Sentence_Embedding (segment_sentences ss (snd p))) (zip [0..<length segs] segs)"
    by (simp add: build_chunk_def Let_def case_prod_unfold)
  also have "\<dots> = map (\<lambda>seg. map Sentence_Embedding (segment_sentences ss seg)) segs"
    by (rule map_snd_zip_upt)
  finally show ?thesis by (simp add: map_concat comp_def)
qed

lemma build_chunks_tokens:
  assumes "c \<in> set (map2 (build_chunk ss) [0..<length segs] segs)"
  shows "\<exists>seg \<in> set segs. Chunk_TokenCount c = sum_list (map Sentence_TokenCount (segment_sentences ss seg))
           \<and> Chunk_NumSentences c = int (length (segment_sentences ss seg))"
proof -
  from assms obtain idx seg where "(idx, seg) \<in> set (zip [0..<length segs] segs)"
    and c: "c = build_chunk ss idx seg" by auto
  then have "seg \<in> set segs" by (auto dest: set_zip_rightD)
  with c show ?thesis by (auto simp: build_chunk_def Let_def)
qed

lemma ExtractChunksFromSentences_total: "\<exists>r. ExtractChunksFromSentences cfg ss = Some r"
  using dp_segments_total [of cfg ss]
  by (auto simp: ExtractChunksFromSentences_def split: sum.splits)

text \<open>
  Claim C2. For every configuration and every sentence list the chunker returns (an error
  or chunks), and it returns chunks when every sentence is within \<open>MaxSize\<close>. When it
  returns chunks, they are built from segments whose sentence lists, concatenated in
  order, are the input list, each segment has at least one sentence, the sentence
  embeddings of the chunks concatenate to those of the input, and every chunk has a token
  count of at most \<open>MaxSize\<close>.
\<close>

theorem dp_chunker_partition:
  "(\<exists>r. ExtractChunksFromSentences cfg ss = Some r) \<and>
   ((\<forall>s \<in> set ss. Sentence_TokenCount s \<le> MaxSize cfg) \<longrightarrow>
      (\<exists>chunks. ExtractChunksFromSentences cfg ss = Some (Inr chunks))) \<and>
   (ExtractChunksFromSentences cfg ss = Some (Inr chunks) \<longrightarrow>
      (\<exists>segs. dp_segments cfg ss = Some (Inr segs) \<and>
              chunks = map2 (build_chunk ss) [0..<length segs] segs \<and>
              concat (map (segment_sentences ss) segs) = ss \<and>
              (\<forall>seg \<in> set segs. segment_sentences ss seg \<noteq> [])) \<and>
      concat (map Chunk_SentenceEmbeddings chunks) = map Sentence_Embedding ss \<and>
      (\<forall>c \<in> set chunks. Chunk_TokenCount c \<le> MaxSize cfg \<and> 1 \<le> Chunk_NumSentences c))"
proof (intro conjI impI)
  from dp_segments_total [of cfg ss]
  show "\<exists>r. ExtractChunksFromSentences cfg ss = Some r"
    by (auto simp: ExtractChunksFromSentences_def split: sum.splits)
next
  assume "\<forall>s \<in> set ss. Sentence_TokenCount s \<le> MaxSize cfg"
  from dp_segments_fit [OF this]
  show "\<exists>chunks. ExtractChunksFromSentences cfg ss = Some (Inr chunks)"
    by (auto simp: ExtractChunksFromSentences_def)
next
  assume ex: "ExtractChunksFromSentences cfg ss = Some (Inr chunks)"
  then obtain segs where segs: "dp_segments cfg ss = Some (Inr segs)"
    and chunks: "chunks = map2 (build_chunk ss) [0..<length segs] segs"
    by (auto simp: ExtractChunksFromSentences_def split: option.splits sum.splits)
  from dp_segments_Inr [OF segs]
  have cover: "concat (map (segment_sentences ss) segs) = ss"
    and each: "\<forall>seg \<in> set segs. fst seg < snd seg \<and> snd seg \<le> length ss \<and>
            sum_list (map Sentence_TokenCount (segment_sentences ss seg)) \<le> MaxSize cfg"
    by simp_all
  have nonempty: "\<forall>seg \<in> set segs. segment_sentences ss seg \<noteq> []"
    using each by (auto simp: segment_sentences_def)
  with segs chunks cover
  show "\<exists>segs. dp_segments cfg ss = Some (Inr segs) \<and>
              chunks = map2 (build_chunk ss) [0..<length segs] segs \<and>
              concat (map (segment_sentences ss) segs) = ss \<and>
              (\<forall>seg \<in> set segs. segment_sentences ss seg \<noteq> [])"
    by blast
  from build_chunks_embeddings [of ss segs] chunks cover
  show "concat (map Chunk_SentenceEmbeddings chunks) = map Sentence_Embedding ss" by simp
  show "\<forall>c \<in> set chunks. Chunk_TokenCount c \<le> MaxSize cfg \<and> 1 \<le> Chunk_NumSentences c"
  proof
    fix c assume "c \<in> set chunks"
    with chunks build_chunks_tokens [of c ss segs]
    obtain seg where seg: "seg \<in> set segs"
      and tc: "Chunk_TokenCount c = sum_list (map Sentence_TokenCount (segment_sentences ss seg))"
      and ns: "Chunk_NumSentences c = int (length (segment_sentences ss seg))" by blast
    from nonempty seg have "1 \<le> length (segment_sentences ss seg)"
      by (cases "segment_sentences ss seg") simp_all
    with each seg tc ns show "Chunk_TokenCount c \<le> MaxSize cfg \<and> 1 \<le> Chunk_NumSentences c"
      by simp
  qed
qed

theorem dp_chunker_partition_witness:
  "map Sentence_TokenCount example_sentences = [6, 4, 5] \<and> MaxSize example_config = 10 \<and>
   ExtractChunksFromSentences example_config example_sentences
     = Some (Inr [\<lparr>Chunk_Text = ''One two.'', Chunk_StartTime = ''00:01'', Chunk_Embedding = [],
                   Chunk_NumSentences = 1, Chunk_TokenCount = 6, Chunk_ChunkIndex = 0,
                   Chunk_SentenceEmbeddings = [[1, 0]]\<rparr>,
                  \<lparr>Chunk_Text = ''Three. Four five.'', Chunk_StartTime = ''00:02'', Chunk_Embedding = [],
                   Chunk_NumSentences = 2, Chunk_TokenCount = 9, Chunk_ChunkIndex = 1,
                   Chunk_SentenceEmbeddings = [[1, 0], [0, 1]]\<rparr>]) \<and>
   (\<exists>segs. dp_segments example_config example_sentences = Some (Inr segs) \<and>
           concat (map (segment_sentences example_sentences) segs) = example_sentences \<and>
           (\<forall>seg \<in> set segs. segment_sentences example_sentences seg \<noteq> []))"
proof -
  let ?chunks = "[\<lparr>Chunk_Text = ''One two.'', Chunk_StartTime = ''00:01'', Chunk_Embedding = [],
                   Chunk_NumSentences = 1, Chunk_TokenCount = 6, Chunk_ChunkIndex = 0,
                   Chunk_SentenceEmbeddings = [[1, 0]]\<rparr>,
                  \<lparr>Chunk_Text = ''Three. Four five.'', Chunk_StartTime = ''00:02'', Chunk_Embedding = [],
                   Chunk_NumSentences = 2, Chunk_TokenCount = 9, Chunk_ChunkIndex = 1,
                   Chunk_SentenceEmbeddings = [[1, 0], [0, 1]]\<rparr>]"
  have fit: "\<forall>s \<in> set example_sentences. Sentence_TokenCount s \<le> MaxSize example_config"
    by (simp add: example_sentences_def example_config_def)
  have raw: "raw_sim example_sentences = [1, 0]"
    by (simp add: raw_sim_def cosine_def dot_def example_sentences_def upt_rec numeral_2_eq_2)
  have norm: "normalize_sim [1, 0] = [1, 0]"
    by (simp add: normalize_sim_def)
  have run: "dp_run example_config [0, 1, 1] [0, 6, 10, 15] (Suc (Suc (Suc 0)))
               = Inr ([0, -1, -2, -3], [0, 0, 0, Suc 0])"
    by (simp add: dp_run_def dp_step_def best_start_def better_def candidate_def size_penalty_def
          segment_tokens_def segment_reward_def example_config_def upt_rec numeral_2_eq_2)
  have walk: "reconstruct [0, 0, 0, Suc 0] (Suc (Suc (Suc 0))) [] = Some [(0, Suc 0), (Suc 0, Suc (Suc (Suc 0)))]"
    by (simp add: reconstruct.simps)
  have segs: "dp_segments example_config example_sentences
                = Some (Inr [(0, Suc 0), (Suc 0, Suc (Suc (Suc 0)))])"
    unfolding dp_segments_def raw
    by (simp add: norm example_sentences_def run walk)
  have ex: "ExtractChunksFromSentences example_config example_sentences = Some (Inr ?chunks)"
    unfolding ExtractChunksFromSentences_def segs
    by (simp add: build_chunk_def segment_sentences_def example_sentences_def upt_rec)
  from dp_chunker_partition [of example_config example_sentences ?chunks] ex fit
  have "\<exists>segs. dp_segments example_config example_sentences = Some (Inr segs) \<and>
           concat (map (segment_sentences example_sentences) segs) = example_sentences \<and>
           (\<forall>seg \<in> set segs. segment_sentences example_sentences seg \<noteq> [])"
    by blast
  moreover have "map Sentence_TokenCount example_sentences = [6, 4, 5]"
    by (simp add: example_sentences_def)
  moreover have "MaxSize example_config = 10"
    by (simp add: example_config_def)
  ultimately show ?thesis using ex by blast
qed

section \<open>Properties of the request handler\<close>

lemma processText_total: "\<exists>r. processText em text cfg = Some r"
proof -
  let ?frames = "[\<lparr>Frame_Text = text, Frame_StartTime = [], Frame_EndTime = []\<rparr>]"
  obtain sents where sents: "ExtractSentencesFromFrames (EmbeddingModel_Tokenizer em) ?frames = Some sents"
    using ExtractSentencesFromFrames_total by blast
  show ?thesis
  proof (cases "EmbedSentences em sents")
    case (Inl err)
    with sents show ?thesis by (simp add: processText_def)
  next
    case (Inr embedded)
    obtain r where r: "ExtractChunksFromSentences cfg embedded = Some r"
      using ExtractChunksFromSentences_total by blast
    with sents Inr show ?thesis
      by (cases r) (auto simp: processText_def split: sum.splits)
  qed
qed

lemma processDocument_total: "\<exists>resp. processDocument em doc = Some resp"
proof -
  obtain r where "processText em (EmbedRequest_Text doc)
      (case EmbedRequest_ChunkingConfig doc of None \<Rightarrow> DefaultChunkingConfig | Some supplied \<Rightarrow> supplied) = Some r"
    using processText_total by blast
  then show ?thesis
    by (cases r) (simp_all add: processDocument_def Let_def)
qed

lemma process_documents_total:
  "\<exists>resps. process_documents em docs = Some resps \<and> length resps = length docs \<and>
           (\<forall>i<length docs. processDocument em (docs ! i) = Some (resps ! i))"
proof (induction docs)
  case Nil
  show ?case by simp
next
  case (Cons doc docs)
  then obtain rest where rest: "process_documents em docs = Some rest" "length rest = length docs"
    "\<forall>i<length docs. processDocument em (docs ! i) = Some (rest ! i)" by blast
  obtain resp where resp: "processDocument em doc = Some resp"
    using processDocument_total by blast
  have "\<forall>i<length (doc # docs). processDocument em ((doc # docs) ! i) = Some ((resp # rest) ! i)"
    using rest(3) resp by (auto simp: nth_Cons split: nat.splits)
  with rest resp show ?case by simp
qed

text \<open>
  Claim C4. A document whose text is empty gets a response with the error
  \<open>Text field is required\<close> and no chunks. For a POST request with a non-empty document
  list the handler answers with one response per document, in order, each the response of
  \<open>processDocument\<close> on that document alone; the responses of the documents with empty
  text have a non-empty error and no chunks.
\<close>

theorem empty_text_document:
  "(EmbedRequest_Text doc = [] \<longrightarrow>
      processDocument em doc =
        Some \<lparr>DocumentResponse_ID = EmbedRequest_ID doc, DocumentResponse_Chunks = [],
              DocumentResponse_Error = ''Text field is required''\<rparr>) \<and>
   (docs \<noteq> [] \<longrightarrow>
      (\<exists>resps. handleEmbed em \<lparr>HttpRequest_Method = ''POST'',
                                HttpRequest_Body = Inr \<lparr>BatchEmbedRequest_Documents = docs\<rparr>\<rparr>
                 = Some (HttpJSON \<lparr>BatchEmbedResponse_Documents = resps\<rparr>) \<and>
               length resps = length docs \<and>
               (\<forall>i<length docs. processDocument em (docs ! i) = Some (resps ! i)) \<and>
               (\<forall>i<length docs. EmbedRequest_Text (docs ! i) = [] \<longrightarrow>
                  DocumentResponse_Error (resps ! i) \<noteq> [] \<and> DocumentResponse_Chunks (resps ! i) = [])))"
proof (intro conjI impI)
  assume "EmbedRequest_Text doc = []"
  then show "processDocument em doc =
        Some \<lparr>DocumentResponse_ID = EmbedRequest_ID doc, DocumentResponse_Chunks = [],
              DocumentResponse_Error = ''Text field is required''\<rparr>"
    by (simp add: processDocument_def Let_def)
next
  assume ne: "docs \<noteq> []"
  from process_documents_total [of em docs] obtain resps where
    resps: "process_documents em docs = Some resps" "length resps = length docs"
      "\<forall>i<length docs. processDocument em (docs ! i) = Some (resps ! i)" by blast
  have "DocumentResponse_Error (resps ! i) \<noteq> [] \<and> DocumentResponse_Chunks (resps ! i) = []"
    if "i < length docs" "EmbedRequest_Text (docs ! i) = []" for i
  proof -
    from resps(3) that(1) have "processDocument em (docs ! i) = Some (resps ! i)" by simp
    with that(2) have "resps ! i = \<lparr>DocumentResponse_ID = EmbedRequest_ID (docs ! i),
        DocumentResponse_Chunks = [], DocumentResponse_Error = ''Text field is required''\<rparr>"
      by (simp add: processDocument_def Let_def)
    then show ?thesis by simp
  qed
  with ne resps
  show "\<exists>resps. handleEmbed em \<lparr>HttpRequest_Method = ''POST'',
                                HttpRequest_Body = Inr \<lparr>BatchEmbedRequest_Documents = docs\<rparr>\<rparr>
                 = Some (HttpJSON \<lparr>BatchEmbedResponse_Documents = resps\<rparr>) \<and>
               length resps = length docs \<and>
               (\<forall>i<length docs. processDocument em (docs ! i) = Some (resps ! i)) \<and>
               (\<forall>i<length docs. EmbedRequest_Text (docs ! i) = [] \<longrightarrow>
                  DocumentResponse_Error (resps ! i) \<noteq> [] \<and> DocumentResponse_Chunks (resps ! i) = [])"
    by (intro exI [of _ resps]) (simp add: handleEmbed_def)
qed

theorem empty_text_document_witness:
  "EmbedRequest_Text \<lparr>EmbedRequest_ID = ''a'', EmbedRequest_Text = [], EmbedRequest_ChunkingConfig = None\<rparr> = [] \<and>
   processDocument example_model
      \<lparr>EmbedRequest_ID = ''a'', EmbedRequest_Text = [], EmbedRequest_ChunkingConfig = None\<rparr>
     = Some \<lparr>DocumentResponse_ID = ''a'', DocumentResponse_Chunks = [],
             DocumentResponse_Error = ''Text field is required''\<rparr> \<and>
   [\<lparr>EmbedRequest_ID = ''a'', EmbedRequest_Text = [], EmbedRequest_ChunkingConfig = None\<rparr>,
    \<lparr>EmbedRequest_ID = ''b'', EmbedRequest_Text = ''Hello world.'', EmbedRequest_ChunkingConfig = None\<rparr>] \<noteq> [] \<and>
   (\<exists>resps. handleEmbed example_model
        \<lparr>HttpRequest_Method = ''POST'',
         HttpRequest_Body = Inr \<lparr>BatchEmbedRequest_Documents =
           [\<lparr>EmbedRequest_ID = ''a'', EmbedRequest_Text = [], EmbedRequest_ChunkingConfig = None\<rparr>,
            \<lparr>EmbedRequest_ID = ''b'', EmbedRequest_Text = ''Hello world.'',
              EmbedRequest_ChunkingConfig = None\<rparr>]\<rparr>\<rparr>
        = Some (HttpJSON \<lparr>BatchEmbedResponse_Documents = resps\<rparr>) \<and>
      length resps = 2 \<and>
      DocumentResponse_Error (resps ! 0) \<noteq> [] \<and> DocumentResponse_Chunks (resps ! 0) = [] \<and>
      processDocument example_model
        \<lparr>EmbedRequest_ID = ''b'', EmbedRequest_Text = ''Hello world.'', EmbedRequest_ChunkingConfig = None\<rparr>
        = Some (resps ! 1))"
proof -
  let ?a = "\<lparr>EmbedRequest_ID = ''a'', EmbedRequest_Text = [], EmbedRequest_ChunkingConfig = None\<rparr>"
  let ?b = "\<lparr>EmbedRequest_ID = ''b'', EmbedRequest_Text = ''Hello world.'', EmbedRequest_ChunkingConfig = None\<rparr>"
  from empty_text_document [of ?a example_model "[?a, ?b]"]
  have one: "processDocument example_model ?a
     = Some \<lparr>DocumentResponse_ID = ''a'', DocumentResponse_Chunks = [],
             DocumentResponse_Error = ''Text field is required''\<rparr>"
    and "\<exists>resps. handleEmbed example_model
        \<lparr>HttpRequest_Method = ''POST'', HttpRequest_Body = Inr \<lparr>BatchEmbedRequest_Documents = [?a, ?b]\<rparr>\<rparr>
        = Some (HttpJSON \<lparr>BatchEmbedResponse_Documents = resps\<rparr>) \<and>
      length resps = length [?a, ?b] \<and>
      (\<forall>i<length [?a, ?b]. processDocument example_model ([?a, ?b] ! i) = Some (resps ! i)) \<and>
      (\<forall>i<length [?a, ?b]. EmbedRequest_Text ([?a, ?b] ! i) = [] \<longrightarrow>
         DocumentResponse_Error (resps ! i) \<noteq> [] \<and> DocumentResponse_Chunks (resps ! i) = [])"
    by simp_all
  then obtain resps where r: "handleEmbed example_model
        \<lparr>HttpRequest_Method = ''POST'', HttpRequest_Body = Inr \<lparr>BatchEmbedRequest_Documents = [?a, ?b]\<rparr>\<rparr>
        = Some (HttpJSON \<lparr>BatchEmbedResponse_Documents = resps\<rparr>)"
      "length resps = length [?a, ?b]"
      "\<forall>i<length [?a, ?b]. processDocument example_model ([?a, ?b] ! i) = Some (resps ! i)"
      "\<forall>i<length [?a, ?b]. EmbedRequest_Text ([?a, ?b] ! i) = [] \<longrightarrow>
         DocumentResponse_Error (resps ! i) \<noteq> [] \<and> DocumentResponse_Chunks (resps ! i) = []"
    by blast
  from r(3) [rule_format, of 1]
  have "processDocument example_model ([?a, ?b] ! 1) = Some (resps ! 1)" by simp
  then have b: "processDocument example_model ?b = Some (resps ! 1)" by simp
  from r(4) [rule_format, of 0]
  have a: "DocumentResponse_Error (resps ! 0) \<noteq> [] \<and> DocumentResponse_Chunks (resps ! 0) = []"
    by simp
  from r(1,2) a b one show ?thesis by simp
qed



text \<open>
  Claim C9. \<open>DefaultChunkingConfig\<close> is 470, 512, 2.0 and 1.0. A document without a
  chunking configuration is processed exactly as the same document with the defaults
  supplied, and a document with non-empty text and a supplied configuration is processed
  by \<open>processText\<close> with that configuration.
\<close>

theorem default_chunking_config:
  "OptimalSize DefaultChunkingConfig = 470 \<and> MaxSize DefaultChunkingConfig = 512 \<and>
   LambdaSize DefaultChunkingConfig = 2.0 \<and> ChunkPenalty DefaultChunkingConfig = 1.0 \<and>
   processDocument em (doc\<lparr>EmbedRequest_ChunkingConfig := None\<rparr>)
     = processDocument em (doc\<lparr>EmbedRequest_ChunkingConfig := Some DefaultChunkingConfig\<rparr>) \<and>
   (EmbedRequest_Text doc \<noteq> [] \<longrightarrow>
      processDocument em (doc\<lparr>EmbedRequest_ChunkingConfig := Some supplied\<rparr>)
        = (case processText em (EmbedRequest_Text doc) supplied of
             None \<Rightarrow> None
           | Some (Inl err) \<Rightarrow>
               Some \<lparr>DocumentResponse_ID = EmbedRequest_ID doc, DocumentResponse_Chunks = [],
                     DocumentResponse_Error = ''Processing failed: '' @ err\<rparr>
           | Some (Inr chunks) \<Rightarrow>
               Some \<lparr>DocumentResponse_ID = EmbedRequest_ID doc,
                     DocumentResponse_Chunks = map chunk_response chunks,
                     DocumentResponse_Error = []\<rparr>))"
  by (simp add: DefaultChunkingConfig_def processDocument_def Let_def split: option.splits sum.splits)

theorem default_chunking_config_witness:
  "EmbedRequest_Text \<lparr>EmbedRequest_ID = ''doc2'', EmbedRequest_Text = ''Second document text.'',
       EmbedRequest_ChunkingConfig = None\<rparr> \<noteq> [] \<and>
   processDocument example_model
     \<lparr>EmbedRequest_ID = ''doc2'', EmbedRequest_Text = ''Second document text.'',
      EmbedRequest_ChunkingConfig = None\<rparr>
   = processDocument example_model
     \<lparr>EmbedRequest_ID = ''doc2'', EmbedRequest_Text = ''Second document text.'',
      EmbedRequest_ChunkingConfig = Some DefaultChunkingConfig\<rparr> \<and>
   processDocument example_model
     \<lparr>EmbedRequest_ID = ''doc2'', EmbedRequest_Text = ''Second document text.'',
      EmbedRequest_ChunkingConfig =
        Some \<lparr>OptimalSize = 300, MaxSize = 400, LambdaSize = 1.5, ChunkPenalty = 2.0\<rparr>\<rparr>
   = (case processText example_model ''Second document text.''
             \<lparr>OptimalSize = 300, MaxSize = 400, LambdaSize = 1.5, ChunkPenalty = 2.0\<rparr> of
        None \<Rightarrow> None
      | Some (Inl err) \<Rightarrow>
          Some \<lparr>DocumentResponse_ID = ''doc2'', DocumentResponse_Chunks = [],
                DocumentResponse_Error = ''Processing failed: '' @ err\<rparr>
      | Some (Inr chunks) \<Rightarrow>
          Some \<lparr>DocumentResponse_ID = ''doc2'', DocumentResponse_Chunks = map chunk_response chunks,
                DocumentResponse_Error = []\<rparr>)"
  using default_chunking_config [of example_model
      "\<lparr>EmbedRequest_ID = ''doc2'', EmbedRequest_Text = ''Second document text.'',
        EmbedRequest_ChunkingConfig = None\<rparr>"
      "\<lparr>OptimalSize = 300, MaxSize = 400, LambdaSize = 1.5, ChunkPenalty = 2.0\<rparr>"]
  by (simp cong: option.case_cong sum.case_cong)

end
